theory Spec2Isabelle
  imports Main "HOL-Library.Sublist"
begin

section \<open>Characters and the \<^verbatim>\<open>std::string\<close> operations the preprocessor uses\<close>

text \<open>
  A \<^verbatim>\<open>std::string\<close> is a \<^typ>\<open>string\<close> (a list of 8-bit characters). The special
  characters of the source are named once.
\<close>

abbreviation NL :: char where "NL \<equiv> CHR 0x0A"
abbreviation TAB :: char where "TAB \<equiv> CHR 0x09"
abbreviation SPC :: char where "SPC \<equiv> CHR 0x20"
abbreviation DQUOTE :: char where "DQUOTE \<equiv> CHR 0x22"
abbreviation SQUOTE :: char where "SQUOTE \<equiv> CHR 0x27"
abbreviation BSLASH :: char where "BSLASH \<equiv> CHR 0x5C"
abbreviation SLASH :: char where "SLASH \<equiv> CHR 0x2F"
abbreviation STAR :: char where "STAR \<equiv> CHR 0x2A"
abbreviation HASH :: char where "HASH \<equiv> CHR 0x23"
abbreviation LPAR :: char where "LPAR \<equiv> CHR 0x28"
abbreviation RPAR :: char where "RPAR \<equiv> CHR 0x29"
abbreviation COMMA :: char where "COMMA \<equiv> CHR 0x2C"
abbreviation SEMI :: char where "SEMI \<equiv> CHR 0x3B"
abbreviation USCORE :: char where "USCORE \<equiv> CHR 0x5F"
abbreviation NUL :: char where "NUL \<equiv> CHR 0x00"

text \<open>\<^verbatim>\<open>(char)EOF\<close>: what \<^verbatim>\<open>(char)istr.get()\<close> yields once the stream is exhausted.\<close>

abbreviation EOFCH :: char where "EOFCH \<equiv> CHR 0xFF"

text \<open>
  \<^verbatim>\<open>s.find(pat, pos)\<close>: the least index \<open>i \<ge> pos\<close> at which \<open>pat\<close> occurs in \<open>s\<close>;
  \<open>None\<close> is \<^verbatim>\<open>npos\<close>. \<open>find_aux\<close> walks the text from index \<open>i\<close> on.
\<close>

fun find_aux :: "string \<Rightarrow> string \<Rightarrow> nat \<Rightarrow> nat option" where
  "find_aux pat [] i = (if pat = [] then Some i else None)"
| "find_aux pat (c # cs) i = (if prefix pat (c # cs) then Some i else find_aux pat cs (Suc i))"

definition find :: "string \<Rightarrow> string \<Rightarrow> nat \<Rightarrow> nat option" where
  "find pat s pos = (if length s < pos then None else find_aux pat (drop pos s) pos)"

text \<open>\<^verbatim>\<open>s.rfind(pat)\<close>: the greatest index at which \<open>pat\<close> occurs in \<open>s\<close>.\<close>

fun rfind_aux :: "string \<Rightarrow> string \<Rightarrow> nat \<Rightarrow> nat option" where
  "rfind_aux pat s 0 = (if prefix pat s then Some 0 else None)"
| "rfind_aux pat s (Suc i) =
     (if prefix pat (drop (Suc i) s) then Some (Suc i) else rfind_aux pat s i)"

definition rfind :: "string \<Rightarrow> string \<Rightarrow> nat option" where
  "rfind pat s = rfind_aux pat s (length s)"

text \<open>
  \<^verbatim>\<open>s.erase(pos, n)\<close>, \<^verbatim>\<open>s.insert(pos, t)\<close> and \<^verbatim>\<open>s.substr(pos, n)\<close>. Every call in the
  source has \<open>pos \<le> length s\<close>, so \<^verbatim>\<open>std::out_of_range\<close> is never thrown.
\<close>

definition erase :: "string \<Rightarrow> nat \<Rightarrow> nat \<Rightarrow> string" where
  "erase s pos n = take pos s @ drop (pos + n) s"

definition insert_at :: "string \<Rightarrow> nat \<Rightarrow> string \<Rightarrow> string" where
  "insert_at s pos t = take pos s @ t @ drop pos s"

definition substr :: "string \<Rightarrow> nat \<Rightarrow> nat \<Rightarrow> string" where
  "substr s pos n = take n (drop pos s)"

text \<open>
  \<^verbatim>\<open>s[i]\<close>: at \<open>i = length s\<close> a \<^verbatim>\<open>std::string\<close> yields the terminating \<^verbatim>\<open>'\0'\<close>; the
  source never reads further out.
\<close>

definition char_at :: "string \<Rightarrow> nat \<Rightarrow> char" where
  "char_at s i = (if i < length s then s ! i else NUL)"

text \<open>The number of newline characters of a text.\<close>

definition count_nl :: "string \<Rightarrow> nat" where
  "count_nl s = length (filter (\<lambda>c. c = NL) s)"

text \<open>
  \<^verbatim>\<open>while (getline(istr, line))\<close>: the lines the loop sees. A final line without a
  newline is still delivered; nothing is delivered after a final newline.
\<close>

fun getlines_aux :: "string \<Rightarrow> string \<Rightarrow> string list" where
  "getlines_aux cur [] = (if cur = [] then [] else [cur])"
| "getlines_aux cur (c # cs) =
     (if c = NL then cur # getlines_aux [] cs else getlines_aux (cur @ [c]) cs)"

definition getlines :: "string \<Rightarrow> string list" where
  "getlines s = getlines_aux [] s"

section \<open>The directive parser: \<^verbatim>\<open>Preprocessor::getdef\<close>\<close>

text \<open>
  \<^verbatim>\<open>line.find(p) == 0\<close> is \<^term>\<open>prefix p line\<close>. \<^verbatim>\<open>line.erase(0, line.find(" "))\<close> drops
  everything before the first space (the whole line when there is none), and the loop
  that erases one space at a time removes every space that is left.
\<close>

definition getdef :: "string \<Rightarrow> bool \<Rightarrow> string" where
  "getdef line def =
     (if def \<and> \<not> prefix ''#ifdef '' line \<and> \<not> prefix ''#if '' line \<and> \<not> prefix ''#elif '' line
      then []
      else if \<not> def \<and> \<not> prefix ''#ifndef '' line then []
      else filter (\<lambda>c. c \<noteq> SPC) (dropWhile (\<lambda>c. c \<noteq> SPC) line))"

section \<open>The configuration enumerator: \<^verbatim>\<open>Preprocessor::getcfgs\<close>\<close>

text \<open>
  The loop over \<open>deflist\<close> that builds the configuration string: it stops at a
  \<^verbatim>\<open>"0"\<close>, skips a \<^verbatim>\<open>"1"\<close> and joins the other atoms with \<^verbatim>\<open>";"\<close>.
\<close>

fun cfg_join :: "string \<Rightarrow> string list \<Rightarrow> string" where
  "cfg_join def [] = def"
| "cfg_join def (x # xs) =
     (if x = ''0'' then def
      else if x = ''1'' then cfg_join def xs
      else cfg_join ((if def \<noteq> [] then def @ '';'' else def) @ x) xs)"

text \<open>
  One iteration of the \<^verbatim>\<open>getline\<close> loop of \<^verbatim>\<open>getcfgs\<close>, on the state \<open>(ret, deflist)\<close>:
  the three \<^verbatim>\<open>if\<close> statements of the body in their order.
\<close>

definition cfgs_push :: "string \<Rightarrow> string list \<times> string list \<Rightarrow> string list \<times> string list" where
  "cfgs_push line st =
     (let ret = fst st; deflist = snd st;
          def = getdef line True @ getdef line False
      in if def \<noteq> [] then
           (let deflist1 = (if deflist \<noteq> [] \<and> prefix ''#elif '' line
                            then butlast deflist else deflist) @ [def];
                cfg = cfg_join [] deflist1
            in (if cfg \<in> set ret then ret else ret @ [cfg], deflist1))
         else (ret, deflist))"

definition cfgs_else :: "string \<Rightarrow> string list \<Rightarrow> string list" where
  "cfgs_else line deflist =
     (if prefix ''#else'' line \<and> deflist \<noteq> []
      then butlast deflist @ [if last deflist = ''1'' then ''0'' else ''1'']
      else deflist)"

definition cfgs_endif :: "string \<Rightarrow> string list \<Rightarrow> string list" where
  "cfgs_endif line deflist =
     (if prefix ''#endif'' line \<and> deflist \<noteq> [] then butlast deflist else deflist)"

definition getcfgs_line :: "string \<Rightarrow> string list \<times> string list \<Rightarrow> string list \<times> string list" where
  "getcfgs_line line st =
     (let st1 = cfgs_push line st
      in (fst st1, cfgs_endif line (cfgs_else line (snd st1))))"

fun getcfgs_loop :: "string list \<Rightarrow> string list \<times> string list \<Rightarrow> string list \<times> string list" where
  "getcfgs_loop [] st = st"
| "getcfgs_loop (line # rest) st = getcfgs_loop rest (getcfgs_line line st)"

definition getcfgs :: "string \<Rightarrow> string list" where
  "getcfgs filedata = fst (getcfgs_loop (getlines filedata) ([[]], []))"

section \<open>The configuration matcher: \<^verbatim>\<open>Preprocessor::match_cfg_def\<close>\<close>

function match_cfg_loop :: "string \<Rightarrow> string \<Rightarrow> bool" where
  "match_cfg_loop cfg def =
     (if cfg = [] then False
      else if SEMI \<notin> set cfg then cfg = def
      else if takeWhile (\<lambda>c. c \<noteq> SEMI) cfg = def then True
      else match_cfg_loop (tl (dropWhile (\<lambda>c. c \<noteq> SEMI) cfg)) def)"
  by pat_completeness auto
termination
proof (relation "measure (\<lambda>(cfg, def). length cfg)")
  show "wf (measure (\<lambda>(cfg, def). length cfg))" by simp
next
  fix cfg def :: string
  assume "cfg \<noteq> []"
  have "length (dropWhile (\<lambda>c. c \<noteq> SEMI) cfg) \<le> length cfg"
    by (rule length_dropWhile_le)
  with \<open>cfg \<noteq> []\<close> have "length (tl (dropWhile (\<lambda>c. c \<noteq> SEMI) cfg)) < length cfg"
    by (cases cfg) (auto simp: less_Suc_eq_le)
  then show "((tl (dropWhile (\<lambda>c. c \<noteq> SEMI) cfg), def), (cfg, def)) \<in> measure (\<lambda>(cfg, def). length cfg)"
    by simp
qed

definition match_cfg_def :: "string \<Rightarrow> string \<Rightarrow> bool" where
  "match_cfg_def cfg def =
     (if def = ''0'' then False
      else if def = ''1'' then True
      else if cfg = [] then False
      else match_cfg_loop cfg def)"

section \<open>The configuration selector: \<^verbatim>\<open>Preprocessor::getcode\<close>\<close>

text \<open>
  \<^verbatim>\<open>back()\<close> of an empty \<^verbatim>\<open>std::list\<close> is undefined behaviour; the model makes it an
  error value, so that a run that reaches it is visible. \<open>NullDeref\<close> is the
  dereference of a null \<^verbatim>\<open>Token\<close> pointer in the macro expander.
\<close>

datatype error = EmptyBack | NullDeref

text \<open>\<^verbatim>\<open>lst.back() = v\<close> on a list of booleans.\<close>

definition set_back :: "bool list \<Rightarrow> bool \<Rightarrow> error + bool list" where
  "set_back lst v = (if lst = [] then Inl EmptyBack else Inr (butlast lst @ [v]))"

text \<open>
  The \<^verbatim>\<open>if\<close>/\<^verbatim>\<open>else if\<close> chain of the loop body, on the two stacks
  \<open>(matching_ifdef, matched_ifdef)\<close>.
\<close>

definition code_stacks :: "string \<Rightarrow> string \<Rightarrow> bool list \<times> bool list \<Rightarrow> error + (bool list \<times> bool list)" where
  "code_stacks cfg line st =
     (let matching = fst st; matched = snd st;
          def = getdef line True; ndef = getdef line False
      in if prefix ''#elif '' line then
           (if matched = [] then Inl EmptyBack
            else if last matched then
              (case set_back matching False of
                 Inl e \<Rightarrow> Inl e
               | Inr matching1 \<Rightarrow> Inr (matching1, matched))
            else if match_cfg_def cfg def then
              (case set_back matching True of
                 Inl e \<Rightarrow> Inl e
               | Inr matching1 \<Rightarrow>
                   (case set_back matched True of
                      Inl e \<Rightarrow> Inl e
                    | Inr matched1 \<Rightarrow> Inr (matching1, matched1)))
            else Inr (matching, matched))
         else if def \<noteq> [] then
           (let matching1 = matching @ [match_cfg_def cfg def]
            in Inr (matching1, matched @ [last matching1]))
         else if ndef \<noteq> [] then
           (let matching1 = matching @ [\<not> match_cfg_def cfg ndef]
            in Inr (matching1, matched @ [last matching1]))
         else if line = ''#else'' then
           (if matched \<noteq> [] then
              (case set_back matching (\<not> last matched) of
                 Inl e \<Rightarrow> Inl e
               | Inr matching1 \<Rightarrow> Inr (matching1, matched))
            else Inr (matching, matched))
         else if line = ''#endif'' then
           Inr (if matching \<noteq> [] then butlast matching else matching,
                if matched \<noteq> [] then butlast matched else matched)
         else Inr (matching, matched))"

text \<open>
  The rest of the body: \<open>match\<close> is recomputed on a line that starts with \<^verbatim>\<open>#\<close>, a line
  is blanked when \<open>match\<close> is false, and a line that starts with \<^verbatim>\<open>#if\<close>, \<^verbatim>\<open>#else\<close>,
  \<^verbatim>\<open>#elif\<close> or \<^verbatim>\<open>#endif\<close> is blanked in any case.
\<close>

definition is_cond_directive :: "string \<Rightarrow> bool" where
  "is_cond_directive line =
     (prefix ''#if'' line \<or> prefix ''#else'' line \<or> prefix ''#elif'' line \<or> prefix ''#endif'' line)"

record code_state =
  cmatch :: bool
  matching_ifdef :: "bool list"
  matched_ifdef :: "bool list"

definition getcode_line :: "string \<Rightarrow> string \<Rightarrow> code_state \<Rightarrow> error + (code_state \<times> string)" where
  "getcode_line cfg line st =
     (case code_stacks cfg line (matching_ifdef st, matched_ifdef st) of
        Inl e \<Rightarrow> Inl e
      | Inr stacks \<Rightarrow>
          (let match1 = (if line \<noteq> [] \<and> hd line = HASH then list_all id (fst stacks)
                         else cmatch st);
               line1 = (if match1 then line else []);
               line2 = (if is_cond_directive line1 then [] else line1)
           in Inr (\<lparr>cmatch = match1, matching_ifdef = fst stacks, matched_ifdef = snd stacks\<rparr>,
                   line2)))"

text \<open>The \<^verbatim>\<open>getline\<close> loop; the lines written to \<open>ret\<close> are collected in order.\<close>

fun getcode_loop :: "string \<Rightarrow> string list \<Rightarrow> code_state \<Rightarrow> error + string list" where
  "getcode_loop cfg [] st = Inr []"
| "getcode_loop cfg (line # rest) st =
     (case getcode_line cfg line st of
        Inl e \<Rightarrow> Inl e
      | Inr (st1, out) \<Rightarrow>
          (case getcode_loop cfg rest st1 of
             Inl e \<Rightarrow> Inl e
           | Inr outs \<Rightarrow> Inr (out # outs)))"

definition code_init :: code_state where
  "code_init = \<lparr>cmatch = True, matching_ifdef = [], matched_ifdef = []\<rparr>"

text \<open>\<^verbatim>\<open>ret << line << "\n"\<close> for every line.\<close>

definition unlines :: "string list \<Rightarrow> string" where
  "unlines ls = concat (map (\<lambda>l. l @ [NL]) ls)"

definition getcode_lines :: "string \<Rightarrow> string \<Rightarrow> error + string list" where
  "getcode_lines filedata cfg = getcode_loop cfg (getlines filedata) code_init"

definition getcode :: "string \<Rightarrow> string \<Rightarrow> error + string" where
  "getcode filedata cfg =
     (case getcode_lines filedata cfg of Inl e \<Rightarrow> Inl e | Inr outs \<Rightarrow> Inr (unlines outs))"

section \<open>The cleaner: \<^verbatim>\<open>Preprocessor::read\<close> and the passes of \<^verbatim>\<open>Preprocessor::preprocess\<close>\<close>

text \<open>
  \<^verbatim>\<open>char\<close> is signed: \<^verbatim>\<open>ch < 0\<close> holds for the bytes with the high bit set. \<^verbatim>\<open>isspace\<close>,
  \<^verbatim>\<open>iscntrl\<close> and \<^verbatim>\<open>isalnum\<close> are those of the C locale.
\<close>

definition highbit :: "char \<Rightarrow> bool" where
  "highbit c = (128 \<le> (of_char c :: nat))"

definition isspace :: "char \<Rightarrow> bool" where
  "isspace c = (c = SPC \<or> c = TAB \<or> c = NL \<or> c = CHR 0x0B \<or> c = CHR 0x0C \<or> c = CHR 0x0D)"

definition iscntrl :: "char \<Rightarrow> bool" where
  "iscntrl c = ((of_char c :: nat) < 32 \<or> (of_char c :: nat) = 127)"

definition isalnum :: "char \<Rightarrow> bool" where
  "isalnum c =
     (let n = (of_char c :: nat)
      in (48 \<le> n \<and> n \<le> 57) \<or> (65 \<le> n \<and> n \<le> 90) \<or> (97 \<le> n \<and> n \<le> 122))"

text \<open>
  The input stream is the list of the characters not yet read. \<^verbatim>\<open>istr.get()\<close> on the
  exhausted stream yields \<^verbatim>\<open>EOF\<close> and clears \<^verbatim>\<open>istr.good()\<close>; the stream then stays
  exhausted, and the \<^verbatim>\<open>for\<close> loop of \<^verbatim>\<open>read\<close>, which tests \<^verbatim>\<open>istr.good()\<close> after its own
  \<^verbatim>\<open>get\<close>, ends on the empty list in either state. So the inner loops return the
  characters left, and the empty list stands for both the failed and the just-emptied
  stream.
\<close>

definition get :: "string \<Rightarrow> char \<times> string" where
  "get s = (case s of [] \<Rightarrow> (EOFCH, []) | c # cs \<Rightarrow> (c, cs))"

text \<open>
  \<^verbatim>\<open>while (istr.good() && ch != '\n') ch = (char)istr.get();\<close> of a line comment; it is
  entered with \<open>ch = '/'\<close>.
\<close>

fun skip_line :: "string \<Rightarrow> string" where
  "skip_line [] = []"
| "skip_line (c # cs) = (if c = NL then cs else skip_line cs)"

text \<open>
  The loop of a block comment, from \<open>chPrev\<close>, \<open>ch\<close> and the characters left: the
  newlines it writes to \<open>code\<close>, and the characters left after it.
\<close>

fun skip_block :: "char \<Rightarrow> char \<Rightarrow> string \<Rightarrow> string \<times> string" where
  "skip_block chPrev ch [] = ([], [])"
| "skip_block chPrev ch (c # cs) =
     (if chPrev = STAR \<and> ch = SLASH then ([], c # cs)
      else (let r = skip_block ch c cs
            in ((if c = NL then [NL] else []) @ fst r, snd r)))"

text \<open>
  The \<^verbatim>\<open>do ... while (istr.good() && ch != '\"')\<close> loop of a string constant: what it
  writes after the opening quote, and the characters left. After a backslash the next
  character is written and \<open>ch\<close> is cleared, so an escaped quote does not end the loop.
\<close>

fun read_str :: "string \<Rightarrow> string \<times> string" where
  "read_str [] = ([EOFCH], [])"
| "read_str [c] =
     (if c = BSLASH then ([c, EOFCH], [])
      else if c = DQUOTE then ([c], [])
      else ([c, EOFCH], []))"
| "read_str (c # d # ds) =
     (if c = BSLASH then (let r = read_str ds in (c # d # fst r, snd r))
      else if c = DQUOTE then ([c], d # ds)
      else (let r = read_str (d # ds) in (c # fst r, snd r)))"

text \<open>A char constant: what is written, the opening quote included, and the characters left.\<close>

definition read_chr :: "string \<Rightarrow> string \<times> string" where
  "read_chr s =
     (let g1 = get s;
          g2 = (if fst g1 = BSLASH then get (snd g1) else (NUL, snd g1));
          esc = (if fst g1 = BSLASH then [fst g2] else []);
          g3 = get (snd g2)
      in (SQUOTE # fst g1 # esc @ [SQUOTE], snd g3))"

lemma skip_line_length: "length (skip_line s) \<le> length s"
  by (induction s) auto

lemma skip_block_length: "length (snd (skip_block p c s)) \<le> length s"
  by (induction p c s rule: skip_block.induct) (auto simp: Let_def)

lemma read_str_length: "length (snd (read_str s)) \<le> length s"
  by (induction s rule: read_str.induct) (auto simp: Let_def)

lemma read_chr_length: "length (snd (read_chr s)) \<le> length s"
  by (auto simp: read_chr_def get_def Let_def split: list.splits)

text \<open>
  ``Replace assorted special chars with spaces'': a white-space or control character
  other than the newline becomes a space.
\<close>

definition norm_ch :: "char \<Rightarrow> char" where
  "norm_ch c = (if c \<noteq> NL \<and> (isspace c \<or> iscntrl c) then SPC else c)"

text \<open>
  The \<^verbatim>\<open>for\<close> loop of \<^verbatim>\<open>read\<close>, from \<open>ignoreSpace\<close> and the characters left: what is
  written to \<open>code\<close>. (\<open>lineno\<close> is counted by the source and never used.)
\<close>

function read_loop :: "bool \<Rightarrow> string \<Rightarrow> string" where
  "read_loop ignoreSpace [] = []"
| "read_loop ignoreSpace (c # cs) =
     (if highbit c then read_loop ignoreSpace cs
      else
        (let ch = norm_ch c
         in if ch = SPC \<and> ignoreSpace then read_loop ignoreSpace cs
            else
              (let ign = (ch = SPC \<or> ch = HASH \<or> ch = SLASH)
               in if ch = SLASH then
                    (case cs of
                       [] \<Rightarrow> [ch, EOFCH]
                     | chNext # rest \<Rightarrow>
                         if chNext = SLASH then NL # read_loop ign (skip_line rest)
                         else if chNext = STAR then
                           fst (skip_block NUL ch rest) @ read_loop ign (snd (skip_block NUL ch rest))
                         else ch # chNext # read_loop ign rest)
                  else if ch = DQUOTE then
                    DQUOTE # fst (read_str cs) @ read_loop ign (snd (read_str cs))
                  else if ch = SQUOTE then
                    fst (read_chr cs) @ read_loop ign (snd (read_chr cs))
                  else ch # read_loop ign cs)))"
  by pat_completeness auto
termination
proof (relation "measure (\<lambda>(ign, s). length s)", goal_cases)
  case 1
  show ?case by simp
next
  case (4 ignoreSpace c cs ch ign chNext rest)
  then show ?case using skip_line_length [of rest] by simp
next
  case (5 ignoreSpace c cs ch ign chNext rest)
  then show ?case using skip_block_length [of NUL ch rest] by simp
next
  case (7 ignoreSpace c cs ch ign)
  then show ?case using read_str_length [of cs] by simp
next
  case (8 ignoreSpace c cs ch ign)
  then show ?case using read_chr_length [of cs] by simp
qed simp_all

definition read :: "string \<Rightarrow> string" where
  "read s = read_loop True s"

text \<open>\<^verbatim>\<open>std::replace(..., '\t', ' ')\<close>.\<close>

definition replace_tabs :: "string \<Rightarrow> string" where
  "replace_tabs s = map (\<lambda>c. if c = TAB then SPC else c) s"

text \<open>
  \<^verbatim>\<open>erase(0, find_first_not_of(" "))\<close> when the text starts with a space: the leading
  spaces go (the whole text when it has nothing else).
\<close>

definition strip_indent :: "string \<Rightarrow> string" where
  "strip_indent s = (if s \<noteq> [] \<and> hd s = SPC then dropWhile (\<lambda>c. c = SPC) s else s)"

text \<open>
  \<^verbatim>\<open>Preprocessor::removeSpaceNearNL\<close>, from \<open>tmp\<close>, whether \<open>i > 0\<close>, and the characters
  \<open>str[i], str[i+1], ...\<close>. \<open>tmp[prev]\<close> is the last character of \<open>tmp\<close>; it is read only
  when \<open>str[i]\<close> is a space and \<open>i > 0\<close>, and then \<open>tmp\<close> is not empty (a space at index
  0 is skipped only when a newline follows, and that newline is appended), so the
  test for the empty \<open>tmp\<close> stands for no behaviour of the source; this is
  \<open>rsnl_never_out_of_range\<close> below.
\<close>

fun rsnl_loop :: "string \<Rightarrow> bool \<Rightarrow> string \<Rightarrow> string" where
  "rsnl_loop tmp started [] = tmp"
| "rsnl_loop tmp started (c # cs) =
     (if c = SPC \<and> ((started \<and> tmp \<noteq> [] \<and> last tmp = NL) \<or> (cs \<noteq> [] \<and> hd cs = NL))
      then rsnl_loop tmp True cs
      else rsnl_loop (tmp @ [c]) True cs)"

definition removeSpaceNearNL :: "string \<Rightarrow> string" where
  "removeSpaceNearNL str = rsnl_loop [] False str"

text \<open>
  One iteration of the loop that folds a backslash at the end of a line, at the
  position \<open>loc\<close> that \<^verbatim>\<open>rfind("\\\n")\<close> returned.
\<close>

definition fold_step :: "string \<Rightarrow> nat \<Rightarrow> string" where
  "fold_step s loc =
     (let s1 = erase s loc 2;
          s2 = (if 0 < loc \<and> s1 ! (loc - 1) \<noteq> SPC then insert_at s1 loc [SPC] else s1)
      in case find [NL] s2 loc of None \<Rightarrow> s2 | Some l \<Rightarrow> insert_at s2 l [NL])"

text \<open>The number of places where a backslash stands before a newline.\<close>

fun count_cont :: "string \<Rightarrow> nat" where
  "count_cont (a # b # cs) = (if a = BSLASH \<and> b = NL then 1 else 0) + count_cont (b # cs)"
| "count_cont cs = 0"

subsection \<open>Facts about \<open>find\<close> and \<open>rfind\<close> that the loops below terminate by\<close>

lemma find_aux_Some:
  "find_aux pat xs i = Some p \<Longrightarrow>
     i \<le> p \<and> (p - i) + length pat \<le> length xs \<and> prefix pat (drop (p - i) xs) \<and>
     (\<forall>j < p - i. \<not> prefix pat (drop j xs))"
proof (induction xs arbitrary: i)
  case Nil
  then show ?case by (auto split: if_splits)
next
  case (Cons c cs)
  show ?case
  proof (cases "prefix pat (c # cs)")
    case True
    with Cons.prems have "p = i" by simp
    with True show ?thesis using prefix_length_le by fastforce
  next
    case False
    with Cons.prems have rec: "find_aux pat cs (Suc i) = Some p" by simp
    note ih = Cons.IH [OF rec]
    from ih have ip: "Suc i \<le> p" by simp
    then have eq: "p - i = Suc (p - Suc i)" by simp
    have "\<forall>j < p - i. \<not> prefix pat (drop j (c # cs))"
    proof (intro allI impI)
      fix j assume "j < p - i"
      then show "\<not> prefix pat (drop j (c # cs))"
        using False ih eq by (cases j) auto
    qed
    with ih ip eq show ?thesis by auto
  qed
qed

lemma find_Some:
  assumes "find pat s pos = Some p"
  shows "pos \<le> p" and "p + length pat \<le> length s" and "prefix pat (drop p s)"
    and "\<forall>j. pos \<le> j \<and> j < p \<longrightarrow> \<not> prefix pat (drop j s)"
proof -
  from assms have le: "pos \<le> length s" and fa: "find_aux pat (drop pos s) pos = Some p"
    by (auto simp: find_def split: if_splits)
  note f = find_aux_Some [OF fa]
  show pp: "pos \<le> p" using f by simp
  show "p + length pat \<le> length s" using f le by auto
  have "drop (p - pos) (drop pos s) = drop p s" using pp by simp
  with f show "prefix pat (drop p s)" by metis
  show "\<forall>j. pos \<le> j \<and> j < p \<longrightarrow> \<not> prefix pat (drop j s)"
  proof (intro allI impI)
    fix j assume j: "pos \<le> j \<and> j < p"
    then have "j - pos < p - pos" by auto
    with f have "\<not> prefix pat (drop (j - pos) (drop pos s))" by blast
    moreover have "drop (j - pos) (drop pos s) = drop j s" using j by simp
    ultimately show "\<not> prefix pat (drop j s)" by metis
  qed
qed

lemma prefix_drop_nth:
  assumes "prefix pat (drop p s)" and "k < length pat"
  shows "s ! (p + k) = pat ! k"
proof -
  from assms(1) obtain zs where zs: "drop p s = pat @ zs" by (auto simp: prefix_def)
  then have "length pat \<le> length (drop p s)" by simp
  with assms(2) have "p + k < length s" by simp
  then have "s ! (p + k) = drop p s ! k" by simp
  also have "\<dots> = pat ! k" using zs assms(2) by (simp add: nth_append)
  finally show ?thesis .
qed

lemma ifdefined_close_pos:
  assumes "find ''#if defined('' ret pos = Some p" and "find '')'' ret (p + 9) = Some pos2"
  shows "p + 12 \<le> pos2" and "pos2 < length ret"
proof -
  note f1 = find_Some [OF assms(1)]
  note f2 = find_Some [OF assms(2)]
  show "pos2 < length ret" using f2(2) by simp
  have r: "ret ! pos2 = RPAR" using prefix_drop_nth [OF f2(3), of 0] by simp
  have w: "ret ! (p + k) = ''#if defined('' ! k" if "k < 12" for k
    using prefix_drop_nth [OF f1(3), of k] that by simp
  have "pos2 \<noteq> p + 9" using r w [of 9] by auto
  moreover have "pos2 \<noteq> p + 10" using r w [of 10] by auto
  moreover have "pos2 \<noteq> p + 11" using r w [of 11] by auto
  ultimately show "p + 12 \<le> pos2" using f2(1) by simp
qed

lemma find_aux_char:
  "find_aux [c] xs i =
     (if c \<in> set xs then Some (i + length (takeWhile (\<lambda>x. x \<noteq> c) xs)) else None)"
  by (induction xs arbitrary: i) auto

lemma find_char:
  "pos \<le> length s \<Longrightarrow>
   find [c] s pos =
     (if c \<in> set (drop pos s) then Some (pos + length (takeWhile (\<lambda>x. x \<noteq> c) (drop pos s)))
      else None)"
  by (simp add: find_def find_aux_char)

lemma rfind_aux_Some:
  "rfind_aux pat s n = Some loc \<Longrightarrow>
     loc \<le> n \<and> prefix pat (drop loc s) \<and> (\<forall>j. loc < j \<and> j \<le> n \<longrightarrow> \<not> prefix pat (drop j s))"
proof (induction n)
  case 0
  then show ?case by (auto split: if_splits)
next
  case (Suc n)
  show ?case
  proof (cases "prefix pat (drop (Suc n) s)")
    case True
    with Suc.prems show ?thesis by auto
  next
    case False
    with Suc.prems have "rfind_aux pat s n = Some loc" by simp
    from Suc.IH [OF this] False show ?thesis
      by (auto simp: le_Suc_eq)
  qed
qed


lemma count_cont_Cons: "c \<noteq> BSLASH \<Longrightarrow> count_cont (c # xs) = count_cont xs"
  by (cases xs) auto

lemma count_cont_append:
  "count_cont (xs @ ys) =
     count_cont xs + count_cont ys +
     (if xs \<noteq> [] \<and> ys \<noteq> [] \<and> last xs = BSLASH \<and> hd ys = NL then 1 else 0)"
proof (induction xs rule: count_cont.induct, goal_cases)
  case (1 a b cs)
  then show ?case by auto
next
  case 2
  show ?case by simp
next
  case (3 v)
  show ?case by (cases ys) auto
qed

lemma count_cont_zero:
  "(\<forall>j. \<not> prefix [BSLASH, NL] (drop j s)) \<Longrightarrow> count_cont s = 0"
proof (induction s rule: count_cont.induct)
  case (1 a b cs)
  have "\<not> prefix [BSLASH, NL] (drop 0 (a # b # cs))" using "1.prems" by blast
  then have ab: "\<not> (a = BSLASH \<and> b = NL)" by auto
  have "\<forall>j. \<not> prefix [BSLASH, NL] (drop j (b # cs))"
  proof
    fix j
    have "\<not> prefix [BSLASH, NL] (drop (Suc j) (a # b # cs))" using "1.prems" by blast
    then show "\<not> prefix [BSLASH, NL] (drop j (b # cs))" by simp
  qed
  with "1.IH" ab show ?case by auto
qed simp_all

text \<open>Doubling the first newline of a text.\<close>

definition dup_nl :: "string \<Rightarrow> string" where
  "dup_nl t = (if NL \<in> set t
               then takeWhile (\<lambda>x. x \<noteq> NL) t @ NL # dropWhile (\<lambda>x. x \<noteq> NL) t
               else t)"

lemma rfind_Some:
  assumes "rfind [BSLASH, NL] s = Some loc"
  shows "s = take loc s @ [BSLASH, NL] @ drop (loc + 2) s" and "loc + 2 \<le> length s"
    and "count_cont (drop (loc + 2) s) = 0"
proof -
  from assms have r: "rfind_aux [BSLASH, NL] s (length s) = Some loc" by (simp add: rfind_def)
  note facts = rfind_aux_Some [OF r]
  from facts have pre: "prefix [BSLASH, NL] (drop loc s)" by simp
  then obtain zs where zs: "drop loc s = [BSLASH, NL] @ zs" by (auto simp: prefix_def)
  then have "length (drop loc s) = 2 + length zs" by simp
  then have len: "loc + 2 \<le> length s" by simp
  show "loc + 2 \<le> length s" by fact
  have "drop (loc + 2) s = drop 2 (drop loc s)" by (simp add: add.commute)
  with zs have zs2: "drop (loc + 2) s = zs" by simp
  have "s = take loc s @ drop loc s" by simp
  with zs zs2 show "s = take loc s @ [BSLASH, NL] @ drop (loc + 2) s" by metis
  have "\<forall>j. \<not> prefix [BSLASH, NL] (drop j (drop (loc + 2) s))"
  proof
    fix j
    show "\<not> prefix [BSLASH, NL] (drop j (drop (loc + 2) s))"
    proof (cases "loc + 2 + j \<le> length s")
      case True
      with facts have "\<not> prefix [BSLASH, NL] (drop (loc + 2 + j) s)" by simp
      then show ?thesis by (simp add: add.commute)
    next
      case False
      then show ?thesis by simp
    qed
  qed
  then show "count_cont (drop (loc + 2) s) = 0" by (rule count_cont_zero)
qed

lemma fold_step_eq:
  assumes "rfind [BSLASH, NL] s = Some loc"
  shows "fold_step s loc =
           take loc s @
           dup_nl ((if 0 < loc \<and> s ! (loc - 1) \<noteq> SPC then [SPC] else []) @ drop (loc + 2) s)"
proof -
  define A where "A = take loc s"
  define B where "B = drop (loc + 2) s"
  define sp where "sp = (if 0 < loc \<and> s ! (loc - 1) \<noteq> SPC then [SPC] else [])"
  define C where "C = sp @ B"
  note r = rfind_Some [OF assms]
  have lenA: "length A = loc" using r(2) by (simp add: A_def)
  have s1: "erase s loc 2 = A @ B" by (simp add: erase_def A_def B_def)
  have nth: "0 < loc \<longrightarrow> (A @ B) ! (loc - 1) = s ! (loc - 1)"
    using lenA by (simp add: nth_append A_def)
  have s2: "(if 0 < loc \<and> (A @ B) ! (loc - 1) \<noteq> SPC then insert_at (A @ B) loc [SPC] else A @ B)
              = A @ C"
  proof -
    have cond: "(0 < loc \<and> (A @ B) ! (loc - 1) \<noteq> SPC) = (0 < loc \<and> s ! (loc - 1) \<noteq> SPC)"
      using nth by auto
    have "insert_at (A @ B) loc [SPC] = A @ SPC # B" using lenA by (simp add: insert_at_def)
    then show ?thesis unfolding cond by (simp add: C_def sp_def)
  qed
  have dr: "drop loc (A @ C) = C" using lenA by simp
  have fnd: "find [NL] (A @ C) loc =
      (if NL \<in> set C then Some (loc + length (takeWhile (\<lambda>x. x \<noteq> NL) C)) else None)"
    using lenA by (subst find_char) (simp_all add: dr)
  have ins: "insert_at (A @ C) (loc + length (takeWhile (\<lambda>x. x \<noteq> NL) C)) [NL]
               = A @ takeWhile (\<lambda>x. x \<noteq> NL) C @ NL # dropWhile (\<lambda>x. x \<noteq> NL) C"
    using lenA by (simp add: insert_at_def takeWhile_eq_take [symmetric] dropWhile_eq_drop [symmetric])
  have "fold_step s loc = A @ dup_nl C"
    unfolding fold_step_def Let_def s1 s2 fnd
    by (simp add: ins dup_nl_def)
  then show ?thesis by (simp add: A_def C_def sp_def B_def)
qed

lemma count_cont_dup_nl: "count_cont (dup_nl t) = count_cont t"
proof (cases "NL \<in> set t")
  case False
  then show ?thesis by (simp add: dup_nl_def)
next
  case True
  define tw where "tw = takeWhile (\<lambda>x. x \<noteq> NL) t"
  define dw where "dw = dropWhile (\<lambda>x. x \<noteq> NL) t"
  have t: "t = tw @ dw" by (simp add: tw_def dw_def)
  from True have "dw \<noteq> []" by (simp add: dw_def)
  moreover have "dw \<noteq> [] \<Longrightarrow> hd dw = NL"
    unfolding dw_def using hd_dropWhile [of "\<lambda>x. x \<noteq> NL" t] by auto
  ultimately obtain r where dw: "dw = NL # r" by (cases dw) auto
  have "count_cont ((tw @ [NL]) @ NL # r) = count_cont (tw @ [NL]) + count_cont (NL # r)"
    by (subst count_cont_append) simp
  moreover have "count_cont ((tw @ [NL]) @ r) = count_cont (tw @ [NL]) + count_cont r"
    by (subst count_cont_append) simp
  moreover have "count_cont (NL # r) = count_cont r" by (simp add: count_cont_Cons)
  ultimately have "count_cont (tw @ NL # NL # r) = count_cont (tw @ NL # r)" by simp
  moreover have "dup_nl t = tw @ NL # dw" using True by (simp add: dup_nl_def tw_def dw_def)
  ultimately show ?thesis using t dw by simp
qed

lemma hd_dup_nl: "t \<noteq> [] \<Longrightarrow> hd t \<noteq> NL \<Longrightarrow> hd (dup_nl t) = hd t"
  by (cases t) (auto simp: dup_nl_def)

lemma dup_nl_empty [simp]: "dup_nl [] = []"
  by (simp add: dup_nl_def)

lemma fold_step_count:
  assumes "rfind [BSLASH, NL] s = Some loc"
  shows "count_cont (fold_step s loc) < count_cont s"
proof -
  define A where "A = take loc s"
  define B where "B = drop (loc + 2) s"
  define sp where "sp = (if 0 < loc \<and> s ! (loc - 1) \<noteq> SPC then [SPC] else [])"
  note r = rfind_Some [OF assms]
  have s: "s = A @ [BSLASH, NL] @ B" using r(1) by (simp add: A_def B_def)
  have B0: "count_cont B = 0" using r(3) by (simp add: B_def)
  have lenA: "length A = loc" using r(2) by (simp add: A_def)
  have lastA: "last A = s ! (loc - 1)" if "0 < loc"
  proof -
    from that lenA have "A \<noteq> []" by auto
    then have "last A = A ! (loc - 1)" using lenA by (simp add: last_conv_nth)
    also have "\<dots> = s ! (loc - 1)" using that by (simp add: A_def)
    finally show ?thesis .
  qed
  have "count_cont s = count_cont (A @ BSLASH # NL # B)" using s by simp
  also have "\<dots> = count_cont A + count_cont (BSLASH # NL # B)"
    by (subst count_cont_append) simp
  finally have cs: "count_cont s = count_cont A + 1 + count_cont (NL # B)" by simp
  have cspB: "count_cont (sp @ B) = 0"
    using B0 by (auto simp: sp_def count_cont_Cons)
  have fs: "fold_step s loc = A @ dup_nl (sp @ B)"
    using fold_step_eq [OF assms] by (simp add: A_def B_def sp_def)
  have strad: "\<not> (A \<noteq> [] \<and> dup_nl (sp @ B) \<noteq> [] \<and> last A = BSLASH \<and> hd (dup_nl (sp @ B)) = NL)"
  proof (cases "0 < loc \<and> s ! (loc - 1) \<noteq> SPC")
    case True
    then have "sp @ B = SPC # B" by (simp add: sp_def)
    then have "hd (dup_nl (sp @ B)) = SPC" by (simp add: hd_dup_nl)
    then show ?thesis by simp
  next
    case False
    then have "loc = 0 \<or> s ! (loc - 1) = SPC" by auto
    then show ?thesis
    proof
      assume "loc = 0" then show ?thesis using lenA by simp
    next
      assume sp': "s ! (loc - 1) = SPC"
      show ?thesis
      proof (cases "0 < loc")
        case True with lastA sp' show ?thesis by simp
      next
        case False then show ?thesis using lenA by simp
      qed
    qed
  qed
  have "count_cont (fold_step s loc) = count_cont A + count_cont (dup_nl (sp @ B))"
    unfolding fs using strad by (subst count_cont_append) auto
  also have "\<dots> = count_cont A" using cspB by (simp add: count_cont_dup_nl)
  finally show ?thesis using cs by simp
qed

subsection \<open>The folding of line continuations and the rewriting of \<^verbatim>\<open>#if defined(X)\<close>\<close>

text \<open>
  \<^verbatim>\<open>while ((loc = processedFile.rfind("\\\n")) != npos)\<close>: each iteration removes the last
  backslash-newline, so the number of them is the measure of termination.
\<close>

function fold_continuations :: "string \<Rightarrow> string" where
  "fold_continuations s =
     (case rfind [BSLASH, NL] s of
        None \<Rightarrow> s
      | Some loc \<Rightarrow> fold_continuations (fold_step s loc))"
  by pat_completeness auto
termination
proof (relation "measure count_cont", goal_cases)
  case 1
  show ?case by simp
next
  case (2 s loc)
  then show ?case using fold_step_count by simp
qed

text \<open>
  The three edits of \<^verbatim>\<open>replaceIfDefined\<close>: the \<^verbatim>\<open>)\<close> at \<open>pos2\<close> is erased, then the nine
  characters of \<^verbatim>\<open>" defined("\<close> after \<^verbatim>\<open>#if\<close>, and \<^verbatim>\<open>"def "\<close> is inserted in their place.
\<close>

definition ifdefined_rewrite :: "string \<Rightarrow> nat \<Rightarrow> nat \<Rightarrow> string" where
  "ifdefined_rewrite ret p pos2 =
     insert_at (erase (erase ret pos2 1) (p + 3) 9) (p + 3) ''def ''"

lemma ifdefined_rewrite_length:
  assumes "p + 12 \<le> pos2" and "pos2 < length ret"
  shows "length (ifdefined_rewrite ret p pos2) + 6 = length ret"
  using assms by (simp add: ifdefined_rewrite_def insert_at_def erase_def)

text \<open>
  The loop of \<^verbatim>\<open>Preprocessor::replaceIfDefined\<close>. \<^verbatim>\<open>pos2 > ret.length() - 1\<close> holds exactly
  when \<^verbatim>\<open>find\<close> returned \<^verbatim>\<open>npos\<close>, and then the loop is left.
\<close>

function rid_loop :: "string \<Rightarrow> nat \<Rightarrow> string" where
  "rid_loop ret pos =
     (case find ''#if defined('' ret pos of
        None \<Rightarrow> ret
      | Some p \<Rightarrow>
          (case find '')'' ret (p + 9) of
             None \<Rightarrow> ret
           | Some pos2 \<Rightarrow>
               rid_loop (if char_at ret (pos2 + 1) = NL then ifdefined_rewrite ret p pos2 else ret)
                        (p + 1)))"
  by pat_completeness auto
termination
proof (relation "measure (\<lambda>(ret, pos). length ret - pos)", goal_cases)
  case 1
  show ?case by simp
next
  case (2 ret pos p pos2)
  note f1 = find_Some [OF 2(1)]
  note c = ifdefined_close_pos [OF 2(1) 2(2)]
  note l = ifdefined_rewrite_length [OF c]
  from f1 c l show ?case by auto
qed

definition replaceIfDefined :: "string \<Rightarrow> string" where
  "replaceIfDefined str = rid_loop str 0"

text \<open>
  The cleaning passes of \<^verbatim>\<open>Preprocessor::preprocess\<close>: the text as it reaches
  \<^verbatim>\<open>replaceIfDefined\<close>, and the cleaned text that the macro expander receives.
\<close>

definition clean_folded :: "string \<Rightarrow> string" where
  "clean_folded input =
     fold_continuations (removeSpaceNearNL (strip_indent (replace_tabs (read input))))"

definition clean :: "string \<Rightarrow> string" where
  "clean input = replaceIfDefined (clean_folded input)"

section \<open>The macro expander: \<^verbatim>\<open>Preprocessor::expandMacros\<close>\<close>

text \<open>
  The expander reads the tokens of a definition through \<^verbatim>\<open>Tokenizer\<close> and \<^verbatim>\<open>Token\<close>, whose
  sources are not part of the files at hand. A token is what the expander uses of it, its
  text \<^verbatim>\<open>str()\<close> and the flag \<^verbatim>\<open>isName()\<close>, and the tokenizer is a parameter \<open>tk\<close> of the
  model: the token list of a text. \<^verbatim>\<open>tokenizer.tokens()\<close> is the first token, a null
  pointer when the list is empty, and \<^verbatim>\<open>next()\<close> walks the list.
\<close>

record token =
  tstr :: string
  isName :: bool

type_synonym tokenizer = "string \<Rightarrow> token list"

text \<open>\<^verbatim>\<open>macro.c_str()\<close>, which the tokenizer's stream is built from, ends at the first \<^verbatim>\<open>'\0'\<close>.\<close>

definition c_str :: "string \<Rightarrow> string" where
  "c_str s = takeWhile (\<lambda>c. c \<noteq> NUL) s"

text \<open>
  Modelled from the spec: \<^verbatim>\<open>Token::Match\<close> is declared in \<^verbatim>\<open>token.h\<close>, which is missing. The
  two patterns the expander uses are \<^verbatim>\<open>"%var% ( %var%"\<close> (a name, an opening parenthesis,
  a name: the head of a function-like definition) and \<^verbatim>\<open>"%type% %var%"\<close> (the \<open>type name\<close>
  adjacency after which one space is written); \<^verbatim>\<open>%var%\<close> and \<^verbatim>\<open>%type%\<close> match a name token,
  and no pattern matches the null pointer.
\<close>

definition match_var_par_var :: "token list \<Rightarrow> bool" where
  "match_var_par_var toks =
     (case toks of
        t1 # t2 # t3 # more_toks \<Rightarrow> isName t1 \<and> tstr t2 = ''('' \<and> isName t3
      | _ \<Rightarrow> False)"

definition match_type_var :: "token list \<Rightarrow> bool" where
  "match_type_var toks =
     (case toks of t1 # t2 # more_toks \<Rightarrow> isName t1 \<and> isName t2 | _ \<Rightarrow> False)"

text \<open>
  Modelled from the spec: a tokenizer ``that recognizes identifiers, punctuation'', used
  to run the expander on concrete texts. White space separates tokens, a maximal run of
  letters, digits and underscores is one token, every other character is a token of its
  own, and a token is a name when it starts with a letter or an underscore.
\<close>

fun tok_split :: "string \<Rightarrow> string \<Rightarrow> string list" where
  "tok_split cur [] = (if cur = [] then [] else [cur])"
| "tok_split cur (c # cs) =
     (if isalnum c \<or> c = USCORE then tok_split (cur @ [c]) cs
      else (if cur = [] then [] else [cur]) @ (if isspace c then [] else [[c]]) @ tok_split [] cs)"

definition isalpha :: "char \<Rightarrow> bool" where
  "isalpha c =
     (let n = (of_char c :: nat) in (65 \<le> n \<and> n \<le> 90) \<or> (97 \<le> n \<and> n \<le> 122))"

definition simple_tokenize :: tokenizer where
  "simple_tokenize s =
     map (\<lambda>t. \<lparr>tstr = t, isName = (isalpha (hd t) \<or> hd t = USCORE)\<rparr>) (tok_split [] s)"

text \<open>
  The end of a definition: the first newline from \<open>defpos + 6\<close> on that no backslash
  precedes. The argument is the result of the last \<^verbatim>\<open>find\<close>.
\<close>

function define_end :: "string \<Rightarrow> nat option \<Rightarrow> nat option" where
  "define_end code None = None"
| "define_end code (Some endpos) =
     (if char_at code (endpos - 1) = BSLASH then define_end code (find [NL] code (endpos + 1))
      else Some endpos)"
  by pat_completeness auto
termination
proof (relation "measure (\<lambda>(code, e). case e of None \<Rightarrow> 0 | Some n \<Rightarrow> Suc (length code - n))",
    goal_cases)
  case 1
  show ?case by simp
next
  case (2 code endpos)
  show ?case
  proof (cases "find [NL] code (endpos + 1)")
    case None
    then show ?thesis by simp
  next
    case (Some n)
    from find_Some(1,2) [OF Some] show ?thesis using Some by simp
  qed
qed

text \<open>
  The loop that removes each backslash-newline from the macro and inserts a newline at
  the definition site instead: \<open>(macro, code, defpos)\<close> after it.
\<close>

function unfold_macro :: "string \<Rightarrow> string \<Rightarrow> nat \<Rightarrow> string \<times> string \<times> nat" where
  "unfold_macro macro code defpos =
     (case find [BSLASH, NL] macro 0 of
        None \<Rightarrow> (macro, code, defpos)
      | Some i \<Rightarrow> unfold_macro (erase macro i 2) (insert_at code defpos [NL]) (defpos + 1))"
  by pat_completeness auto
termination
proof (relation "measure (\<lambda>(macro, code, defpos). length macro)", goal_cases)
  case 1
  show ?case by simp
next
  case (2 macro code defpos i)
  from find_Some(2) [OF 2] show ?case by (simp add: erase_def)
qed

text \<open>The formal parameters: the name tokens from the third token up to the first \<^verbatim>\<open>)\<close>.\<close>

definition macro_params :: "token list \<Rightarrow> string list" where
  "macro_params toks =
     (if match_var_par_var toks
      then map tstr (filter isName (takeWhile (\<lambda>t. tstr t \<noteq> '')'') (drop 2 toks)))
      else [])"

text \<open>
  The loop that parses the arguments of an occurrence, from the characters
  \<open>code[pos2], code[pos2 + 1], ...\<close>: the arguments and the final \<open>pos2\<close>, which is the index of
  the closing parenthesis, or the length of the code when the text ends first (the last
  argument is then not recorded).
\<close>

fun parse_params :: "string \<Rightarrow> nat \<Rightarrow> int \<Rightarrow> string \<Rightarrow> string list \<Rightarrow> string list \<times> nat" where
  "parse_params [] pos2 parlevel par params = (params, pos2)"
| "parse_params (c # cs) pos2 parlevel par params =
     (let parlevel1 = (if c = LPAR then parlevel + 1
                       else if c = RPAR then parlevel - 1 else parlevel)
      in if c = LPAR \<and> parlevel1 = 1 then parse_params cs (pos2 + 1) parlevel1 par params
         else if c = RPAR \<and> parlevel1 \<le> 0 then (params @ [par], pos2)
         else if parlevel1 = 1 \<and> c = COMMA then
           parse_params cs (pos2 + 1) parlevel1 [] (params @ [par])
         else if 1 \<le> parlevel1 then parse_params cs (pos2 + 1) parlevel1 (par @ [c]) params
         else parse_params cs (pos2 + 1) parlevel1 par params)"

text \<open>The text a name token of the body stands for: the argument of the first formal it equals.\<close>

fun subst_param :: "string list \<Rightarrow> string list \<Rightarrow> string \<Rightarrow> string" where
  "subst_param (m # ms) (p # ps) str = (if str = m then p else subst_param ms ps str)"
| "subst_param ms ps str = str"

fun macro_body :: "string list \<Rightarrow> string list \<Rightarrow> token list \<Rightarrow> string" where
  "macro_body macroparams params [] = []"
| "macro_body macroparams params (tok # rest) =
     (if isName tok then subst_param macroparams params (tstr tok) else tstr tok) @
     (if match_type_var (tok # rest) then '' '' else []) @
     macro_body macroparams params rest"

text \<open>
  ``Create macro code'': the tokens after the first token, or after the first \<^verbatim>\<open>)\<close> for a
  function-like macro. \<^verbatim>\<open>tok->next()\<close> on the null pointer, when there is no \<^verbatim>\<open>)\<close>, is
  \<open>NullDeref\<close>.
\<close>

definition macrocode :: "token list \<Rightarrow> string list \<Rightarrow> string list \<Rightarrow> error + string" where
  "macrocode toks macroparams params =
     (case (if macroparams \<noteq> [] then dropWhile (\<lambda>t. tstr t \<noteq> '')'') toks else toks) of
        [] \<Rightarrow> Inl NullDeref
      | tok # rest \<Rightarrow> Inr (macro_body macroparams params rest))"

text \<open>
  One iteration of the loop over the occurrences of the macro name, at the occurrence
  \<open>pos1\<close> that \<^verbatim>\<open>find\<close> returned: the code and \<open>pos1\<close> after it. Each \<^verbatim>\<open>continue\<close> leaves the
  code as it is. \<open>mlen\<close> is \<^verbatim>\<open>macro.length()\<close>.
\<close>

definition expand_at ::
  "nat \<Rightarrow> string \<Rightarrow> string list \<Rightarrow> token list \<Rightarrow> string \<Rightarrow> nat \<Rightarrow> error + (string \<times> nat)" where
  "expand_at mlen macroname macroparams toks code pos1 =
     (if pos1 \<noteq> 0 \<and> (isalnum (char_at code (pos1 - 1)) \<or> char_at code (pos1 - 1) = USCORE)
      then Inr (code, pos1)
      else
        (let pos2 = pos1 + length macroname
         in if mlen \<le> pos2 then Inr (code, pos1)
            else if macroparams \<noteq> [] \<and> char_at code pos2 \<noteq> LPAR then Inr (code, pos1)
            else
              (let pp = (if macroparams \<noteq> [] then parse_params (drop pos2 code) pos2 0 [] []
                         else ([], pos2))
               in if length (fst pp) \<noteq> length macroparams then Inr (code, pos1)
                  else
                    (case macrocode toks macroparams (fst pp) of
                       Inl e \<Rightarrow> Inl e
                     | Inr mc \<Rightarrow>
                         Inr (insert_at (erase code pos1 (snd pp + 1 - pos1)) pos1 mc,
                              pos1 + length mc)))))"

lemma parse_params_pos: "pos2 \<le> snd (parse_params cs pos2 parlevel par params)"
proof (induction cs arbitrary: pos2 parlevel par params)
  case Nil
  show ?case by simp
next
  case (Cons c cs)
  have step: "pos2 \<le> snd (parse_params cs (Suc pos2) l p q)" for l p q
    using Cons.IH [of "Suc pos2" l p q] by simp
  show ?case by (simp add: Let_def step)
qed

lemma expand_at_measure:
  assumes "expand_at mlen macroname macroparams toks code p = Inr (code1, p1)"
    and "p \<le> length code"
  shows "length code1 - p1 \<le> length code - p"
proof -
  have rep: "length (insert_at (erase code p n) p mc) - (p + length mc) \<le> length code - p"
    for n mc using assms(2) by (simp add: insert_at_def erase_def)
  have "(code1 = code \<and> p1 = p) \<or>
        (\<exists>n mc. code1 = insert_at (erase code p n) p mc \<and> p1 = p + length mc)"
    using assms(1) unfolding expand_at_def Let_def
    by (simp split: if_splits sum.splits) blast+
  then show "length code1 - p1 \<le> length code - p"
    using rep by auto
qed

text \<open>
  The loop over the occurrences of the macro name, from \<open>pos1\<close>: the code after it, or the
  error an iteration ran into.
\<close>

function expand_uses ::
  "nat \<Rightarrow> string \<Rightarrow> string list \<Rightarrow> token list \<Rightarrow> string \<Rightarrow> nat \<Rightarrow> error + string" where
  "expand_uses mlen macroname macroparams toks code pos1 =
     (case find macroname code (pos1 + 1) of
        None \<Rightarrow> Inr code
      | Some p \<Rightarrow>
          (case expand_at mlen macroname macroparams toks code p of
             Inl e \<Rightarrow> Inl e
           | Inr (code1, p1) \<Rightarrow> expand_uses mlen macroname macroparams toks code1 p1))"
  by pat_completeness auto
termination
proof (relation "measure (\<lambda>(mlen, macroname, macroparams, toks, code, pos1). length code - pos1)",
    goal_cases)
  case 1
  show ?case by simp
next
  case (2 mlen macroname macroparams toks code pos1 p r code1 p1)
  from find_Some(1,2) [OF 2(1)] have p: "pos1 < p" "p \<le> length code" by simp_all
  from 2(2,3) have "expand_at mlen macroname macroparams toks code p = Inr (code1, p1)" by simp
  from expand_at_measure [OF this p(2)] p show ?case by simp
qed

text \<open>
  The body of the loop over the definitions, for the definition found at \<open>defpos\<close> that
  ends at \<open>endpos\<close>: the macro is cut out of the code, its line continuations become
  newlines at the definition site, it is tokenized, and its occurrences are expanded.
  \<^verbatim>\<open>tokenizer.tokens()->str()\<close> on a macro without tokens is \<open>NullDeref\<close>. The result is
  the code and \<open>defpos\<close> after the iteration.
\<close>

definition expand_define :: "tokenizer \<Rightarrow> string \<Rightarrow> nat \<Rightarrow> nat \<Rightarrow> error + (string \<times> nat)" where
  "expand_define tk code defpos endpos =
     (let u = unfold_macro (substr code (defpos + 8) (endpos - defpos - 7))
                (erase code defpos (endpos - defpos)) defpos;
          macro = fst u; code1 = fst (snd u); defpos1 = snd (snd u);
          toks = tk (c_str macro)
      in case toks of
           [] \<Rightarrow> Inl NullDeref
         | tok # more_toks \<Rightarrow>
             (case expand_uses (length macro) (tstr tok) (macro_params toks) toks code1 defpos1 of
                Inl e \<Rightarrow> Inl e
              | Inr code2 \<Rightarrow> Inr (code2, defpos1)))"

text \<open>
  The loop over the definitions. Whether it ends on every text is not settled here
  (an expansion can write new definitions into the code), so the loop is a partial
  function: \<open>None\<close> is a run that does not return, \<open>Some (Inl e)\<close> one that runs into
  undefined behaviour, \<open>Some (Inr code)\<close> the code returned. A definition without a
  terminating newline is erased with all that follows it, and the loop is left.
\<close>

partial_function (option) expand_defines :: "tokenizer \<Rightarrow> string \<Rightarrow> nat \<Rightarrow> (error + string) option" where
  "expand_defines tk code defpos =
     (case find ''#define'' code defpos of
        None \<Rightarrow> Some (Inr code)
      | Some dp \<Rightarrow>
          (case define_end code (find [NL] code (dp + 6)) of
             None \<Rightarrow> Some (Inr (take dp code))
           | Some endpos \<Rightarrow>
               (case expand_define tk code dp endpos of
                  Inl e \<Rightarrow> Some (Inl e)
                | Inr r \<Rightarrow> expand_defines tk (fst r) (snd r))))"

declare expand_defines.simps [code]

definition expandMacros :: "tokenizer \<Rightarrow> string \<Rightarrow> (error + string) option" where
  "expandMacros tk code = expand_defines tk code 0"

section \<open>The entry points: \<^verbatim>\<open>Preprocessor::preprocess\<close>\<close>




text \<open>The unfolding equations of the loops are used by hand.\<close>

declare match_cfg_loop.simps [simp del] fold_continuations.simps [simp del]
  rid_loop.simps [simp del] unfold_macro.simps [simp del] expand_uses.simps [simp del]

section \<open>Predicates and functions the properties are stated with\<close>

text \<open>A text that is empty or ends with a newline; so does each of its suffixes.\<close>

definition nl_terminated :: "string \<Rightarrow> bool" where
  "nl_terminated s = (s = [] \<or> last s = NL)"

text \<open>
  \<^verbatim>\<open>removeSpaceNearNL\<close> once more, with the read of \<open>tmp[prev]\<close> on an empty \<open>tmp\<close>
  (\<open>prev = -1\<close>) made visible as \<open>None\<close>; that it never happens is proved below.
\<close>

fun rsnl_checked :: "string \<Rightarrow> bool \<Rightarrow> string \<Rightarrow> string option" where
  "rsnl_checked tmp started [] = Some tmp"
| "rsnl_checked tmp started (c # cs) =
     (if c = SPC \<and> started \<and> tmp = [] then None
      else if c = SPC \<and> ((started \<and> last tmp = NL) \<or> (cs \<noteq> [] \<and> hd cs = NL))
      then rsnl_checked tmp True cs
      else rsnl_checked (tmp @ [c]) True cs)"

text \<open>
  What \<^verbatim>\<open>removeSpaceNearNL\<close> writes, as a function of the characters left and of whether
  the last character written is a newline.
\<close>

fun rsnl_out :: "bool \<Rightarrow> string \<Rightarrow> string" where
  "rsnl_out b [] = []"
| "rsnl_out b (c # cs) =
     (if c = SPC \<and> (b \<or> (cs \<noteq> [] \<and> hd cs = NL)) then rsnl_out b cs
      else c # rsnl_out (c = NL) cs)"


text \<open>
  Texts without quotes and backslashes that the reader and the replacement of tabs
  return unchanged, from the state \<open>ign\<close> of \<open>ignoreSpace\<close>: a slash comes with the
  character after it.
\<close>

definition plainc :: "char \<Rightarrow> bool" where
  "plainc c = (\<not> highbit c \<and> norm_ch c = c \<and> c \<noteq> SLASH \<and> c \<noteq> DQUOTE \<and> c \<noteq> SQUOTE \<and> c \<noteq> BSLASH)"

fun settled :: "bool \<Rightarrow> string \<Rightarrow> bool" where
  "settled ign [] = True"
| "settled ign [c] = (plainc c \<and> \<not> (c = SPC \<and> ign))"
| "settled ign (c # x # rest) =
     (if c = SLASH
      then x \<noteq> SLASH \<and> x \<noteq> STAR \<and> x \<noteq> TAB \<and> x \<noteq> BSLASH \<and> settled True rest
      else plainc c \<and> \<not> (c = SPC \<and> ign) \<and> settled (c = SPC \<or> c = HASH) (x # rest))"

text \<open>
  The text between the quotes of a string constant: it has no double quote but after
  a backslash.
\<close>

fun str_body :: "string \<Rightarrow> bool" where
  "str_body [] = True"
| "str_body [c] = (c \<noteq> DQUOTE)"
| "str_body (c # d # ds) = (if c = BSLASH then str_body ds else c \<noteq> DQUOTE \<and> str_body (d # ds))"

text \<open>
  The block comment, the string constant and the character constant that the reader
  starts on these characters end within them: the comment has its \<^verbatim>\<open>*/\<close>, the string its
  closing quote, and the character constant its one or two characters and the one in
  closing position.
\<close>

fun block_closed :: "char \<Rightarrow> char \<Rightarrow> string \<Rightarrow> bool" where
  "block_closed chPrev ch [] = (chPrev = STAR \<and> ch = SLASH)"
| "block_closed chPrev ch (c # cs) = (if chPrev = STAR \<and> ch = SLASH then True else block_closed ch c cs)"

fun str_closed :: "string \<Rightarrow> bool" where
  "str_closed [] = False"
| "str_closed [c] = (c = DQUOTE)"
| "str_closed (c # d # ds) =
     (if c = BSLASH then str_closed ds else if c = DQUOTE then True else str_closed (d # ds))"

definition chr_closed :: "string \<Rightarrow> bool" where
  "chr_closed s = (case s of [] \<Rightarrow> False | c # cs \<Rightarrow> if c = BSLASH then 2 \<le> length cs else 1 \<le> length cs)"

text \<open>
  The reader, started outside of every comment and constant on exactly these
  characters, is outside of every comment and constant when they are used up: whatever
  it starts within them ends within them, and the last of them is not a slash whose
  next character is still to be read.
\<close>

function top_level :: "string \<Rightarrow> bool" where
  "top_level [] = True"
| "top_level (c # cs) =
     (if c = SLASH then
        (case cs of
           [] \<Rightarrow> False
         | chNext # rest \<Rightarrow>
             if chNext = SLASH then NL \<in> set rest \<and> top_level (skip_line rest)
             else if chNext = STAR then
               block_closed NUL SLASH rest \<and> top_level (snd (skip_block NUL SLASH rest))
             else top_level rest)
      else if c = DQUOTE then str_closed cs \<and> top_level (snd (read_str cs))
      else if c = SQUOTE then chr_closed cs \<and> top_level (snd (read_chr cs))
      else top_level cs)"
  by pat_completeness auto
termination
proof (relation "measure length", goal_cases)
  case 1
  show ?case by simp
next
  case (2 c cs chNext rest)
  then show ?case using skip_line_length [of rest] by simp
next
  case (3 c cs chNext rest)
  then show ?case using skip_block_length [of NUL SLASH rest] by simp
next
  case (5 c cs)
  then show ?case using read_str_length [of cs] by simp
next
  case (6 c cs)
  then show ?case using read_chr_length [of cs] by simp
qed simp_all

declare top_level.simps(2) [simp del]

text \<open>
  Every \<^verbatim>\<open>#if defined(\<close> inside the text has a \<^verbatim>\<open>)\<close> after it inside the text.
\<close>

fun defined_closed :: "string \<Rightarrow> bool" where
  "defined_closed [] = True"
| "defined_closed (c # cs) =
     ((prefix ''#if defined('' (c # cs) \<longrightarrow> RPAR \<in> set cs) \<and> defined_closed cs)"

text \<open>
  The state with which the \<^verbatim>\<open>getline\<close> loop of \<^verbatim>\<open>getcode\<close> is left after the given lines
  (so the state with which it reaches the line after them).
\<close>

fun getcode_state :: "string \<Rightarrow> string list \<Rightarrow> code_state \<Rightarrow> error + code_state" where
  "getcode_state cfg [] st = Inr st"
| "getcode_state cfg (line # rest) st =
     (case getcode_line cfg line st of
        Inl e \<Rightarrow> Inl e
      | Inr (st1, out) \<Rightarrow> getcode_state cfg rest st1)"

text \<open>
  The value of \<open>match\<close> for a line, in the state the loop reaches it with: on a line
  that starts with \<^verbatim>\<open>#\<close> it is recomputed from \<open>matching_ifdef\<close>, on any other line it is
  what the last line that starts with \<^verbatim>\<open>#\<close> left (\<open>true\<close> at the start).
\<close>

definition line_match :: "code_state \<Rightarrow> string \<Rightarrow> bool" where
  "line_match st line =
     (if line \<noteq> [] \<and> hd line = HASH then list_all id (matching_ifdef st) else cmatch st)"








section \<open>Lines, directives and the two line loops\<close>

lemma else_line_getdef:
  assumes "prefix ''#else'' line"
  shows "getdef line b = []" and "\<not> prefix ''#endif'' line" and "\<not> prefix ''#elif '' line"
  using assms by (auto simp: getdef_def prefix_def)

lemma endif_line_getdef:
  assumes "prefix ''#endif'' line"
  shows "getdef line b = []" and "\<not> prefix ''#else'' line" and "\<not> prefix ''#elif '' line"
  using assms by (auto simp: getdef_def prefix_def)

lemma getcode_line_out:
  assumes "getcode_line cfg line st = Inr (st1, out)"
  shows "(is_cond_directive line \<longrightarrow> out = []) \<and> (out = [] \<or> out = line)"
  using assms
  by (auto simp: getcode_line_def Let_def split: sum.splits if_splits)











lemma elif_line_getdef:
  assumes "prefix ''#elif '' line"
  shows "getdef line False = []" and "\<not> prefix ''#else'' line" and "\<not> prefix ''#endif'' line"
  using assms by (auto simp: getdef_def prefix_def)

lemma cond_directive_hash: "is_cond_directive line \<Longrightarrow> line \<noteq> [] \<and> hd line = HASH"
  by (auto simp: is_cond_directive_def prefix_def)

lemma getcode_line_cond:
  assumes "code_stacks cfg line (matching_ifdef st, matched_ifdef st) = Inr (m1, m2)"
    and "is_cond_directive line"
  shows "getcode_line cfg line st =
           Inr (\<lparr>cmatch = list_all id m1, matching_ifdef = m1, matched_ifdef = m2\<rparr>, [])"
proof (cases "list_all id m1")
  case True
  then show ?thesis
    using assms cond_directive_hash [OF assms(2)] by (simp add: getcode_line_def)
next
  case False
  have "\<not> is_cond_directive []" by (simp add: is_cond_directive_def)
  with False show ?thesis
    using assms(1) cond_directive_hash [OF assms(2)] by (simp add: getcode_line_def)
qed

lemma code_stacks_other:
  assumes "\<not> is_cond_directive line"
  shows "code_stacks cfg line st = Inr st"
proof -
  from assms have p: "\<not> prefix ''#if'' line" "\<not> prefix ''#else'' line" "\<not> prefix ''#elif'' line"
    "\<not> prefix ''#endif'' line" by (simp_all add: is_cond_directive_def)
  from p(1) have "\<not> prefix ''#ifdef '' line" "\<not> prefix ''#if '' line" "\<not> prefix ''#ifndef '' line"
    by (auto simp: prefix_def)
  moreover from p(3) have e: "\<not> prefix ''#elif '' line" by (auto simp: prefix_def)
  ultimately have d: "getdef line True = []" "getdef line False = []"
    by (simp_all add: getdef_def)
  from p(2,4) have n: "line \<noteq> ''#else''" "line \<noteq> ''#endif''" by auto
  show ?thesis by (simp add: code_stacks_def Let_def d e n)
qed

lemma getcode_line_other:
  assumes "\<not> is_cond_directive line"
  shows "getcode_line cfg line st =
           Inr (st\<lparr>cmatch := line_match st line\<rparr>, if line_match st line then line else [])"
proof -
  have "\<not> is_cond_directive []" by (simp add: is_cond_directive_def)
  with assms show ?thesis
    by (simp add: getcode_line_def code_stacks_other line_match_def Let_def)
qed

lemma getcode_loop_lines:
  assumes "getcode_loop cfg ls st0 = Inr outs"
  shows "length outs = length ls \<and>
         (\<forall>i < length ls.
            (is_cond_directive (ls ! i) \<longrightarrow> outs ! i = []) \<and>
            (\<not> is_cond_directive (ls ! i) \<longrightarrow>
               (\<exists>st. getcode_state cfg (take i ls) st0 = Inr st \<and>
                     outs ! i = (if line_match st (ls ! i) then ls ! i else []))))"
  using assms
proof (induction ls arbitrary: st0 outs)
  case Nil
  then show ?case by simp
next
  case (Cons l ls)
  from Cons.prems obtain st1 out outs1 where
    step: "getcode_line cfg l st0 = Inr (st1, out)" and
    rest: "getcode_loop cfg ls st1 = Inr outs1" and
    outs: "outs = out # outs1"
    by (auto split: sum.splits)
  note ih = Cons.IH [OF rest]
  note hd = getcode_line_out [OF step]
  show ?case
  proof (intro conjI allI impI)
    show "length outs = length (l # ls)" using ih outs by simp
  next
    fix i assume "i < length (l # ls)" "is_cond_directive ((l # ls) ! i)"
    then show "outs ! i = []" using ih hd outs by (cases i) auto
  next
    fix i assume i: "i < length (l # ls)" and nc: "\<not> is_cond_directive ((l # ls) ! i)"
    show "\<exists>st. getcode_state cfg (take i (l # ls)) st0 = Inr st \<and>
               outs ! i = (if line_match st ((l # ls) ! i) then (l # ls) ! i else [])"
    proof (cases i)
      case 0
      with nc step outs show ?thesis by (auto simp: getcode_line_other)
    next
      case (Suc j)
      with i nc ih obtain st where
        "getcode_state cfg (take j ls) st1 = Inr st"
        "outs1 ! j = (if line_match st (ls ! j) then ls ! j else [])" by auto
      with Suc step outs show ?thesis by simp
    qed
  qed
qed







section \<open>The loop over the occurrences of a macro\<close>

lemma expand_at_prefix:
  assumes "expand_at mlen macroname macroparams toks code p = Inr (code1, p1)"
    and "p \<le> length code"
  shows "take p code1 = take p code" and "p \<le> p1"
proof -
  have "(code1 = code \<and> p1 = p) \<or>
        (\<exists>n mc. code1 = insert_at (erase code p n) p mc \<and> p1 = p + length mc)"
    using assms unfolding expand_at_def Let_def
    by (simp split: if_splits sum.splits) blast+
  then show "take p code1 = take p code" and "p \<le> p1"
    using assms(2) by (auto simp: insert_at_def erase_def)
qed

lemma expand_uses_prefix:
  "expand_uses mlen macroname macroparams toks code pos1 = Inr out \<Longrightarrow>
     take (pos1 + 1) out = take (pos1 + 1) code"
proof (induction mlen macroname macroparams toks code pos1 rule: expand_uses.induct)
  case (1 mlen macroname macroparams toks code pos1)
  show ?case
  proof (cases "find macroname code (pos1 + 1)")
    case None
    with "1.prems" show ?thesis by (subst (asm) expand_uses.simps) simp
  next
    case (Some p)
    with "1.prems" obtain code1 p1 where
      at: "expand_at mlen macroname macroparams toks code p = Inr (code1, p1)" and
      rest: "expand_uses mlen macroname macroparams toks code1 p1 = Inr out"
      by (subst (asm) expand_uses.simps) (auto split: sum.splits)
    from find_Some(1) [OF Some] have pp: "pos1 + 1 \<le> p" .
    from find_Some(2) [OF Some] have "p \<le> length code" by simp
    note pre = expand_at_prefix [OF at this]
    have "take (p1 + 1) out = take (p1 + 1) code1"
      using "1.IH" [OF Some at refl rest] .
    then have "take (pos1 + 1) (take (p1 + 1) out) = take (pos1 + 1) (take (p1 + 1) code1)"
      by simp
    then have "take (pos1 + 1) out = take (pos1 + 1) code1"
      using pp pre(2) by (simp add: min_def)
    also have "\<dots> = take (pos1 + 1) (take p code1)" using pp by (simp add: min_def)
    also have "\<dots> = take (pos1 + 1) (take p code)" using pre(1) by simp
    also have "\<dots> = take (pos1 + 1) code" using pp by (simp add: min_def)
    finally show ?thesis .
  qed
qed

lemma expand_uses_untouched:
  assumes "expand_uses mlen macroname macroparams toks code p = Inr out"
    and "\<forall>j. p < j \<and> j < k \<longrightarrow> \<not> prefix macroname (drop j code)"
  shows "take k out = take k code"
proof (cases "find macroname code (p + 1)")
  case None
  with assms(1) show ?thesis by (subst (asm) expand_uses.simps) simp
next
  case (Some p')
  with assms(1) obtain code1 p1 where
    at: "expand_at mlen macroname macroparams toks code p' = Inr (code1, p1)" and
    rest: "expand_uses mlen macroname macroparams toks code1 p1 = Inr out"
    by (subst (asm) expand_uses.simps) (auto split: sum.splits)
  note f = find_Some [OF Some]
  have k: "k \<le> p'"
  proof (rule ccontr)
    assume "\<not> k \<le> p'"
    then have "p < p' \<and> p' < k" using f(1) by simp
    with assms(2) f(3) show False by blast
  qed
  from f(2) have "p' \<le> length code" by simp
  note pre = expand_at_prefix [OF at this]
  have "take (p1 + 1) out = take (p1 + 1) code1" by (rule expand_uses_prefix [OF rest])
  then have "take k (take (p1 + 1) out) = take k (take (p1 + 1) code1)" by simp
  then have "take k out = take k code1" using k pre(2) by (simp add: min_def)
  also have "\<dots> = take k (take p' code1)" using k by (simp add: min_def)
  also have "\<dots> = take k (take p' code)" using pre(1) by simp
  also have "\<dots> = take k code" using k by (simp add: min_def)
  finally show ?thesis .
qed

section \<open>The branches of the reader\<close>

declare read_loop.simps(2) [simp del]

lemma norm_ch_simps [simp]:
  "norm_ch SLASH = SLASH" "norm_ch DQUOTE = DQUOTE" "norm_ch SQUOTE = SQUOTE"
  "norm_ch NL = NL" "norm_ch SPC = SPC" "norm_ch HASH = HASH" "norm_ch BSLASH = BSLASH"
  by (simp_all add: norm_ch_def isspace_def iscntrl_def)

lemma highbit_simps [simp]:
  "\<not> highbit SLASH" "\<not> highbit DQUOTE" "\<not> highbit SQUOTE" "\<not> highbit NL" "\<not> highbit SPC"
  "\<not> highbit HASH" "\<not> highbit BSLASH"
  by (simp_all add: highbit_def)

lemma norm_ch_eq_iff:
  "(norm_ch c = SLASH) = (c = SLASH)" "(norm_ch c = DQUOTE) = (c = DQUOTE)"
  "(norm_ch c = SQUOTE) = (c = SQUOTE)" "(norm_ch c = NL) = (c = NL)"
  "(norm_ch c = HASH) = (c = HASH)" "(norm_ch c = BSLASH) = (c = BSLASH)"
  by (auto simp: norm_ch_def isspace_def iscntrl_def)

lemma read_loop_highbit: "highbit c \<Longrightarrow> read_loop ign (c # cs) = read_loop ign cs"
  by (simp add: read_loop.simps(2))

lemma read_loop_skip:
  "\<not> highbit c \<Longrightarrow> norm_ch c = SPC \<Longrightarrow> ign \<Longrightarrow> read_loop ign (c # cs) = read_loop ign cs"
  by (simp add: read_loop.simps(2))

lemma read_loop_slash_eof: "read_loop ign [SLASH] = [SLASH, EOFCH]"
  by (simp add: read_loop.simps(2))

lemma read_loop_line_comment:
  "read_loop ign (SLASH # SLASH # rest) = NL # read_loop True (skip_line rest)"
  by (simp add: read_loop.simps(2))

lemma read_loop_block_comment:
  "read_loop ign (SLASH # STAR # rest) =
     fst (skip_block NUL SLASH rest) @ read_loop True (snd (skip_block NUL SLASH rest))"
  by (simp add: read_loop.simps(2) Let_def)

lemma read_loop_slash_other:
  "chNext \<noteq> SLASH \<Longrightarrow> chNext \<noteq> STAR \<Longrightarrow>
     read_loop ign (SLASH # chNext # rest) = SLASH # chNext # read_loop True rest"
  by (simp add: read_loop.simps(2))

lemma read_loop_string:
  "read_loop ign (DQUOTE # cs) = DQUOTE # fst (read_str cs) @ read_loop False (snd (read_str cs))"
  by (simp add: read_loop.simps(2))

lemma read_loop_chr:
  "read_loop ign (SQUOTE # cs) = fst (read_chr cs) @ read_loop False (snd (read_chr cs))"
  by (simp add: read_loop.simps(2))

lemma read_loop_plain:
  "\<not> highbit c \<Longrightarrow> \<not> (norm_ch c = SPC \<and> ign) \<Longrightarrow> c \<noteq> SLASH \<Longrightarrow> c \<noteq> DQUOTE \<Longrightarrow>
   c \<noteq> SQUOTE \<Longrightarrow>
     read_loop ign (c # cs) = norm_ch c # read_loop (norm_ch c = SPC \<or> c = HASH) cs"
  by (simp add: read_loop.simps(2) norm_ch_eq_iff Let_def)

lemma read_loop_cases [case_names Nil highbit skip slash_eof line_comment block_comment
    slash_other string chr plain]:
  assumes "\<And>ign. P ign []"
    and "\<And>ign c cs. highbit c \<Longrightarrow> P ign cs \<Longrightarrow> P ign (c # cs)"
    and "\<And>ign c cs. \<not> highbit c \<Longrightarrow> norm_ch c = SPC \<Longrightarrow> ign \<Longrightarrow> P ign cs \<Longrightarrow> P ign (c # cs)"
    and "\<And>ign. P ign [SLASH]"
    and "\<And>ign rest. P True (skip_line rest) \<Longrightarrow> P ign (SLASH # SLASH # rest)"
    and "\<And>ign rest. P True (snd (skip_block NUL SLASH rest)) \<Longrightarrow> P ign (SLASH # STAR # rest)"
    and "\<And>ign chNext rest. chNext \<noteq> SLASH \<Longrightarrow> chNext \<noteq> STAR \<Longrightarrow> P True rest \<Longrightarrow>
           P ign (SLASH # chNext # rest)"
    and "\<And>ign cs. P False (snd (read_str cs)) \<Longrightarrow> P ign (DQUOTE # cs)"
    and "\<And>ign cs. P False (snd (read_chr cs)) \<Longrightarrow> P ign (SQUOTE # cs)"
    and "\<And>ign c cs. \<not> highbit c \<Longrightarrow> \<not> (norm_ch c = SPC \<and> ign) \<Longrightarrow> c \<noteq> SLASH \<Longrightarrow>
           c \<noteq> DQUOTE \<Longrightarrow> c \<noteq> SQUOTE \<Longrightarrow> P (norm_ch c = SPC \<or> c = HASH) cs \<Longrightarrow>
           P ign (c # cs)"
  shows "P ign s"
proof (induction ign s rule: read_loop.induct)
  case (1 ignoreSpace)
  show ?case by (rule assms(1))
next
  case (2 ignoreSpace c cs)
  show ?case
  proof (cases "highbit c")
    case True
    from assms(2) [OF True "2.IH"(1) [OF True]] show ?thesis .
  next
    case hb: False
    show ?thesis
    proof (cases "norm_ch c = SPC \<and> ignoreSpace")
      case True
      from "2.IH"(2) [OF hb refl True] have "P ignoreSpace cs" .
      with assms(3) hb True show ?thesis by blast
    next
      case nsp: False
      show ?thesis
      proof (cases "c = SLASH")
        case sl: True
        then have sl': "norm_ch c = SLASH" by simp
        show ?thesis
        proof (cases cs)
          case Nil
          with sl assms(4) show ?thesis by simp
        next
          case (Cons chNext rest)
          show ?thesis
          proof (cases "chNext = SLASH")
            case True
            from "2.IH"(3) [OF hb refl nsp refl sl' Cons True] sl'
            have "P True (skip_line rest)" by simp
            with assms(5) sl Cons True show ?thesis by simp
          next
            case ns: False
            show ?thesis
            proof (cases "chNext = STAR")
              case True
              from "2.IH"(4) [OF hb refl nsp refl sl' Cons ns True] sl'
              have "P True (snd (skip_block NUL SLASH rest))" by simp
              with assms(6) sl Cons True show ?thesis by simp
            next
              case False
              from "2.IH"(5) [OF hb refl nsp refl sl' Cons ns False] sl'
              have "P True rest" by simp
              with assms(7) [OF ns False] sl Cons show ?thesis by simp
            qed
          qed
        qed
      next
        case nsl: False
        then have nsl': "norm_ch c \<noteq> SLASH" by (simp add: norm_ch_eq_iff)
        show ?thesis
        proof (cases "c = DQUOTE")
          case True
          then have dq': "norm_ch c = DQUOTE" by simp
          from "2.IH"(6) [OF hb refl nsp refl nsl' dq'] dq'
          have "P False (snd (read_str cs))" by simp
          with assms(8) True show ?thesis by simp
        next
          case ndq: False
          then have ndq': "norm_ch c \<noteq> DQUOTE" by (simp add: norm_ch_eq_iff)
          show ?thesis
          proof (cases "c = SQUOTE")
            case True
            then have sq': "norm_ch c = SQUOTE" by simp
            from "2.IH"(7) [OF hb refl nsp refl nsl' ndq' sq'] sq'
            have "P False (snd (read_chr cs))" by simp
            with assms(9) True show ?thesis by simp
          next
            case nsq: False
            then have nsq': "norm_ch c \<noteq> SQUOTE" by (simp add: norm_ch_eq_iff)
            from "2.IH"(8) [OF hb refl nsp refl nsl' ndq' nsq'] nsl'
            have "P (norm_ch c = SPC \<or> c = HASH) cs" by (simp add: norm_ch_eq_iff)
            from assms(10) [OF hb nsp nsl ndq nsq this] show ?thesis .
          qed
        qed
      qed
    qed
  qed
qed

section \<open>Newlines through the cleaning passes\<close>

lemma count_nl_append [simp]: "count_nl (xs @ ys) = count_nl xs + count_nl ys"
  by (simp add: count_nl_def)

lemma count_nl_Cons [simp]: "count_nl (c # cs) = (if c = NL then 1 else 0) + count_nl cs"
  by (simp add: count_nl_def)

lemma count_nl_Nil [simp]: "count_nl [] = 0"
  by (simp add: count_nl_def)


lemma skip_line_count: "NL \<in> set s \<Longrightarrow> Suc (count_nl (skip_line s)) = count_nl s"
  by (induction s) auto

lemma skip_line_suffix: "suffix (skip_line s) s"
  by (induction s) (auto simp: suffix_Cons)

lemma skip_block_count:
  "count_nl (fst (skip_block p c s)) + count_nl (snd (skip_block p c s)) = count_nl s"
  by (induction p c s rule: skip_block.induct) (auto simp: Let_def)

lemma skip_block_suffix: "suffix (snd (skip_block p c s)) s"
  by (induction p c s rule: skip_block.induct) (auto simp: Let_def suffix_Cons)

lemma skip_block_out: "set (fst (skip_block p c s)) \<subseteq> {NL}"
  by (induction p c s rule: skip_block.induct) (auto simp: Let_def)

lemma read_str_count:
  "count_nl (fst (read_str s)) + count_nl (snd (read_str s)) = count_nl s"
  by (induction s rule: read_str.induct) (auto simp: Let_def)

lemma read_str_suffix: "suffix (snd (read_str s)) s"
  by (induction s rule: read_str.induct) (auto simp: Let_def suffix_Cons)

lemma read_str_out: "set (fst (read_str s)) \<subseteq> insert EOFCH (set s)"
  by (induction s rule: read_str.induct) (auto simp: Let_def)

lemma read_chr_suffix: "suffix (snd (read_chr s)) s"
  by (auto simp: read_chr_def get_def Let_def suffix_Cons split: list.splits)

lemma read_chr_out: "set (fst (read_chr s)) \<subseteq> insert SQUOTE (insert EOFCH (set s))"
  by (auto simp: read_chr_def get_def Let_def split: list.splits if_splits)

lemma nl_terminated_suffix: "nl_terminated s \<Longrightarrow> suffix t s \<Longrightarrow> nl_terminated t"
  by (cases "t = []") (auto simp: nl_terminated_def suffix_def)

lemma nl_terminated_Cons: "nl_terminated (c # cs) \<Longrightarrow> nl_terminated cs"
  by (auto simp: nl_terminated_def split: if_splits)

lemma nl_terminated_mem: "nl_terminated s \<Longrightarrow> s \<noteq> [] \<Longrightarrow> NL \<in> set s"
  by (auto simp: nl_terminated_def) (metis last_in_set)

lemma suffix_set: "suffix t s \<Longrightarrow> set t \<subseteq> set s"
  by (auto simp: suffix_def)

lemma read_loop_count:
  "nl_terminated s \<Longrightarrow> SQUOTE \<notin> set s \<Longrightarrow> count_nl (read_loop ign s) = count_nl s"
proof (induction ign s rule: read_loop_cases)
  case (Nil ign)
  show ?case by simp
next
  case (highbit ign c cs)
  then have "c \<noteq> NL" by auto
  with highbit nl_terminated_Cons [of c cs] show ?case by (simp add: read_loop_highbit)
next
  case (skip ign c cs)
  then have "c \<noteq> NL" by auto
  with skip nl_terminated_Cons [of c cs] show ?case by (simp add: read_loop_skip)
next
  case (slash_eof ign)
  show ?case by (simp add: read_loop_slash_eof)
next
  case (line_comment ign rest)
  from line_comment.prems(1) have t: "nl_terminated rest" and ne: "rest \<noteq> []"
    by (auto simp: nl_terminated_def split: if_splits)
  then have mem: "NL \<in> set rest" using nl_terminated_mem by blast
  have "nl_terminated (skip_line rest)"
    using t skip_line_suffix nl_terminated_suffix by blast
  moreover have "SQUOTE \<notin> set (skip_line rest)"
    using line_comment.prems(2) suffix_set [OF skip_line_suffix [of rest]] by auto
  ultimately have "count_nl (read_loop True (skip_line rest)) = count_nl (skip_line rest)"
    by (rule line_comment.IH)
  with skip_line_count [OF mem] show ?case by (simp add: read_loop_line_comment)
next
  case (block_comment ign rest)
  from block_comment.prems(1) have t: "nl_terminated rest"
    using nl_terminated_Cons by blast
  have "nl_terminated (snd (skip_block NUL SLASH rest))"
    using t skip_block_suffix nl_terminated_suffix by blast
  moreover have "SQUOTE \<notin> set (snd (skip_block NUL SLASH rest))"
    using block_comment.prems(2) suffix_set [OF skip_block_suffix [of NUL SLASH rest]] by auto
  ultimately have "count_nl (read_loop True (snd (skip_block NUL SLASH rest)))
      = count_nl (snd (skip_block NUL SLASH rest))"
    by (rule block_comment.IH)
  with skip_block_count [of NUL SLASH rest] show ?case by (simp add: read_loop_block_comment)
next
  case (slash_other ign chNext rest)
  from slash_other.prems(1) have "nl_terminated rest" using nl_terminated_Cons by blast
  with slash_other show ?case by (simp add: read_loop_slash_other)
next
  case (string ign cs)
  from string.prems(1) have t: "nl_terminated cs" using nl_terminated_Cons by blast
  have "nl_terminated (snd (read_str cs))"
    using t read_str_suffix nl_terminated_suffix by blast
  moreover have "SQUOTE \<notin> set (snd (read_str cs))"
    using string.prems(2) suffix_set [OF read_str_suffix [of cs]] by auto
  ultimately have "count_nl (read_loop False (snd (read_str cs))) = count_nl (snd (read_str cs))"
    by (rule string.IH)
  with read_str_count [of cs] show ?case by (simp add: read_loop_string)
next
  case (chr ign cs)
  then show ?case by simp
next
  case (plain ign c cs)
  from plain.prems(1) have "nl_terminated cs" using nl_terminated_Cons by blast
  with plain show ?case by (simp add: read_loop_plain norm_ch_eq_iff)
qed

lemma read_loop_no_bslash: "BSLASH \<notin> set s \<Longrightarrow> BSLASH \<notin> set (read_loop ign s)"
proof (induction ign s rule: read_loop_cases)
  case (Nil ign)
  show ?case by simp
next
  case (highbit ign c cs)
  then show ?case by (simp add: read_loop_highbit)
next
  case (skip ign c cs)
  then show ?case by (simp add: read_loop_skip)
next
  case (slash_eof ign)
  show ?case by (simp add: read_loop_slash_eof)
next
  case (line_comment ign rest)
  have "BSLASH \<notin> set (skip_line rest)"
    using line_comment.prems suffix_set [OF skip_line_suffix [of rest]] by auto
  with line_comment.IH show ?case by (simp add: read_loop_line_comment)
next
  case (block_comment ign rest)
  have "BSLASH \<notin> set (snd (skip_block NUL SLASH rest))"
    using block_comment.prems suffix_set [OF skip_block_suffix [of NUL SLASH rest]] by auto
  with block_comment.IH skip_block_out [of NUL SLASH rest] show ?case
    by (auto simp: read_loop_block_comment)
next
  case (slash_other ign chNext rest)
  then show ?case by (simp add: read_loop_slash_other)
next
  case (string ign cs)
  have "BSLASH \<notin> set (snd (read_str cs))"
    using string.prems suffix_set [OF read_str_suffix [of cs]] by auto
  with string.IH string.prems read_str_out [of cs] show ?case
    by (auto simp: read_loop_string)
next
  case (chr ign cs)
  have "BSLASH \<notin> set (snd (read_chr cs))"
    using chr.prems suffix_set [OF read_chr_suffix [of cs]] by auto
  with chr.IH chr.prems read_chr_out [of cs] show ?case
    by (auto simp: read_loop_chr)
next
  case (plain ign c cs)
  from plain.prems have "norm_ch c \<noteq> BSLASH" by (auto simp: norm_ch_eq_iff)
  with plain show ?case by (auto simp: read_loop_plain)
qed

lemma count_nl_replace_tabs: "count_nl (replace_tabs s) = count_nl s"
  by (induction s) (auto simp: replace_tabs_def)

lemma count_nl_dropWhile_spc: "count_nl (dropWhile (\<lambda>c. c = SPC) s) = count_nl s"
  by (induction s) auto

lemma count_nl_strip_indent: "count_nl (strip_indent s) = count_nl s"
  by (simp add: strip_indent_def count_nl_dropWhile_spc)

lemma count_nl_rsnl_loop: "count_nl (rsnl_loop tmp st s) = count_nl tmp + count_nl s"
  by (induction s arbitrary: tmp st) auto

lemma count_nl_removeSpaceNearNL: "count_nl (removeSpaceNearNL s) = count_nl s"
  by (simp add: removeSpaceNearNL_def count_nl_rsnl_loop)

lemma set_rsnl_loop: "set (rsnl_loop tmp st s) \<subseteq> set tmp \<union> set s"
proof (induction s arbitrary: tmp st)
  case Nil
  show ?case by simp
next
  case (Cons c cs)
  from Cons.IH [of tmp True] Cons.IH [of "tmp @ [c]" True] show ?case by auto
qed

lemma rfind_no_bslash: "BSLASH \<notin> set s \<Longrightarrow> rfind [BSLASH, NL] s = None"
proof (rule ccontr)
  assume nb: "BSLASH \<notin> set s" and "rfind [BSLASH, NL] s \<noteq> None"
  then obtain loc where "rfind [BSLASH, NL] s = Some loc" by auto
  from rfind_Some(1) [OF this] have "BSLASH \<in> set s"
    by (metis append_Cons in_set_conv_decomp)
  with nb show False by simp
qed

lemma fold_continuations_no_bslash: "BSLASH \<notin> set s \<Longrightarrow> fold_continuations s = s"
  by (subst fold_continuations.simps) (simp add: rfind_no_bslash)

lemma ifdefined_rewrite_eq:
  assumes "p + 12 \<le> pos2" and "pos2 < length ret"
  shows "ifdefined_rewrite ret p pos2 =
           take (p + 3) ret @ ''def '' @ take (pos2 - (p + 12)) (drop (p + 12) ret) @
           drop (pos2 + 1) ret"
proof -
  define r1 where "r1 = erase ret pos2 1"
  have r1: "r1 = take pos2 ret @ drop (pos2 + 1) ret" by (simp add: r1_def erase_def)
  have t1: "take (p + 3) r1 = take (p + 3) ret" using assms by (simp add: r1 min_def)
  have d1: "drop (p + 12) r1 = take (pos2 - (p + 12)) (drop (p + 12) ret) @ drop (pos2 + 1) ret"
    using assms by (simp add: r1 drop_take)
  define r2 where "r2 = erase r1 (p + 3) 9"
  have r2: "r2 = take (p + 3) ret @ take (pos2 - (p + 12)) (drop (p + 12) ret) @ drop (pos2 + 1) ret"
    unfolding r2_def erase_def t1 using d1 by (simp add: add.commute add.left_commute)
  have len: "length (take (p + 3) ret) = p + 3" using assms by simp
  have "insert_at r2 (p + 3) ''def '' =
          take (p + 3) ret @ ''def '' @ take (pos2 - (p + 12)) (drop (p + 12) ret) @ drop (pos2 + 1) ret"
    unfolding insert_at_def r2 using len by (simp del: length_take)
  then show ?thesis by (simp add: ifdefined_rewrite_def r1_def r2_def)
qed

lemma ifdefined_split:
  assumes "p + 12 \<le> pos2" and "pos2 < length ret"
  shows "ret = take (p + 3) ret @ take 9 (drop (p + 3) ret) @
               take (pos2 - (p + 12)) (drop (p + 12) ret) @ ret ! pos2 # drop (pos2 + 1) ret"
proof -
  have "drop 9 (drop (p + 3) ret) = drop (p + 12) ret" by (simp add: add.commute)
  then have a: "take 9 (drop (p + 3) ret) @ drop (p + 12) ret = drop (p + 3) ret"
    by (metis append_take_drop_id)
  have "drop (pos2 - (p + 12)) (drop (p + 12) ret) = drop pos2 ret" using assms by simp
  then have b: "take (pos2 - (p + 12)) (drop (p + 12) ret) @ drop pos2 ret = drop (p + 12) ret"
    by (metis append_take_drop_id)
  have c: "ret ! pos2 # drop (pos2 + 1) ret = drop pos2 ret"
    using assms by (simp add: Cons_nth_drop_Suc)
  have "take (p + 3) ret @ take 9 (drop (p + 3) ret) @
          take (pos2 - (p + 12)) (drop (p + 12) ret) @ ret ! pos2 # drop (pos2 + 1) ret
        = take (p + 3) ret @ take 9 (drop (p + 3) ret) @
          take (pos2 - (p + 12)) (drop (p + 12) ret) @ drop pos2 ret"
    by (simp only: c)
  also have "\<dots> = take (p + 3) ret @ take 9 (drop (p + 3) ret) @ drop (p + 12) ret"
    by (simp only: b)
  also have "\<dots> = take (p + 3) ret @ drop (p + 3) ret" by (simp only: a)
  also have "\<dots> = ret" by simp
  finally show ?thesis by simp
qed

lemma ifdefined_window:
  assumes "find ''#if defined('' ret pos = Some p"
  shows "take 9 (drop (p + 3) ret) = '' defined(''"
proof -
  from find_Some(3) [OF assms] obtain zs where "drop p ret = ''#if defined('' @ zs"
    by (auto simp: prefix_def)
  then have "drop 3 (drop p ret) = '' defined('' @ zs" by simp
  then have "drop (p + 3) ret = '' defined('' @ zs" by (simp add: add.commute)
  then show ?thesis by simp
qed

lemma ifdefined_rewrite_count:
  assumes "find ''#if defined('' ret pos = Some p" and "find '')'' ret (p + 9) = Some pos2"
  shows "count_nl (ifdefined_rewrite ret p pos2) = count_nl ret"
proof -
  note c = ifdefined_close_pos [OF assms]
  have r: "ret ! pos2 = RPAR" using prefix_drop_nth [OF find_Some(3) [OF assms(2)], of 0] by simp
  have "count_nl ret = count_nl (take (p + 3) ret) + count_nl (take 9 (drop (p + 3) ret)) +
      count_nl (take (pos2 - (p + 12)) (drop (p + 12) ret)) + count_nl (ret ! pos2 # drop (pos2 + 1) ret)"
    by (subst ifdefined_split [OF c]) (simp only: count_nl_append add.assoc)
  also have "\<dots> = count_nl (take (p + 3) ret) +
      count_nl (take (pos2 - (p + 12)) (drop (p + 12) ret)) + count_nl (drop (pos2 + 1) ret)"
    by (simp add: ifdefined_window [OF assms(1)] r)
  finally show ?thesis by (simp add: ifdefined_rewrite_eq [OF c])
qed

lemma rid_loop_count: "count_nl (rid_loop ret pos) = count_nl ret"
proof (induction ret pos rule: rid_loop.induct)
  case (1 ret pos)
  show ?case
  proof (cases "find ''#if defined('' ret pos")
    case None
    then show ?thesis by (subst rid_loop.simps) simp
  next
    case (Some p)
    show ?thesis
    proof (cases "find '')'' ret (p + 9)")
      case None
      with Some show ?thesis by (subst rid_loop.simps) simp
    next
      case (Some pos2)
      note f1 = \<open>find ''#if defined('' ret pos = Some p\<close>
      define ret1 where
        "ret1 = (if char_at ret (pos2 + 1) = NL then ifdefined_rewrite ret p pos2 else ret)"
      have ih: "count_nl (rid_loop ret1 (p + 1)) = count_nl ret1"
        unfolding ret1_def by (rule "1.IH" [OF f1 Some])
      have "rid_loop ret pos = rid_loop ret1 (p + 1)"
        by (subst rid_loop.simps) (simp add: f1 Some ret1_def)
      then have "count_nl (rid_loop ret pos) =
          count_nl (if char_at ret (pos2 + 1) = NL then ifdefined_rewrite ret p pos2 else ret)"
        using ih by (simp add: ret1_def)
      also have "\<dots> = count_nl ret"
        using ifdefined_rewrite_count [OF \<open>find ''#if defined('' ret pos = Some p\<close> Some] by simp
      finally show ?thesis .
    qed
  qed
qed

lemma set_strip_indent: "set (strip_indent s) \<subseteq> set s"
  by (auto simp: strip_indent_def dest: set_dropWhileD)

lemma clean_count:
  assumes "nl_terminated input" and "SQUOTE \<notin> set input" and "BSLASH \<notin> set input"
  shows "count_nl (clean input) = count_nl input"
proof -
  define t where "t = removeSpaceNearNL (strip_indent (replace_tabs (read input)))"
  have "BSLASH \<notin> set (read input)" using assms(3) by (simp add: read_def read_loop_no_bslash)
  then have "BSLASH \<notin> set (replace_tabs (read input))" by (auto simp: replace_tabs_def)
  then have "BSLASH \<notin> set (strip_indent (replace_tabs (read input)))"
    using set_strip_indent by blast
  then have "BSLASH \<notin> set t"
    using set_rsnl_loop [of "[]" False] by (auto simp: t_def removeSpaceNearNL_def)
  then have "fold_continuations t = t" by (rule fold_continuations_no_bslash)
  then have "clean input = replaceIfDefined t" by (simp add: clean_def clean_folded_def t_def)
  then have "count_nl (clean input) = count_nl t" by (simp add: replaceIfDefined_def rid_loop_count)
  also have "\<dots> = count_nl (read input)"
    by (simp add: t_def count_nl_removeSpaceNearNL count_nl_strip_indent count_nl_replace_tabs)
  also have "\<dots> = count_nl input" using assms(1,2) by (simp add: read_def read_loop_count)
  finally show ?thesis .
qed

section \<open>The exact number of newlines of the cleaned text\<close>













section \<open>Texts that cleaning leaves as they are\<close>

lemma rsnl_loop_out:
  "st \<or> tmp = [] \<Longrightarrow> rsnl_loop tmp st s = tmp @ rsnl_out (tmp \<noteq> [] \<and> last tmp = NL) s"
proof (induction s arbitrary: tmp st)
  case Nil
  show ?case by simp
next
  case (Cons c cs)
  show ?case
  proof (cases "c = SPC \<and> ((tmp \<noteq> [] \<and> last tmp = NL) \<or> (cs \<noteq> [] \<and> hd cs = NL))")
    case True
    with Cons.prems Cons.IH [of True tmp] show ?thesis by auto
  next
    case False
    with Cons.prems Cons.IH [of True "tmp @ [c]"] show ?thesis by auto
  qed
qed

lemma removeSpaceNearNL_out: "removeSpaceNearNL s = rsnl_out False s"
  by (simp add: removeSpaceNearNL_def rsnl_loop_out)

lemma rsnl_out_hd: "cs \<noteq> [] \<Longrightarrow> hd cs \<noteq> SPC \<Longrightarrow> hd cs \<noteq> NL \<Longrightarrow>
    rsnl_out b cs \<noteq> [] \<and> hd (rsnl_out b cs) \<noteq> NL"
  by (cases cs) auto




lemma settled_slash:
  "settled ign (SLASH # x # rest) =
     (x \<noteq> SLASH \<and> x \<noteq> STAR \<and> x \<noteq> TAB \<and> x \<noteq> BSLASH \<and> settled True rest)"
  by simp

lemma settled_slash_end: "\<not> settled ign [SLASH]"
  by (simp add: plainc_def)




lemma plainc_simps [simp]: "plainc NL" "plainc SPC" "plainc HASH" "\<not> plainc TAB"
  by (simp_all add: plainc_def norm_ch_def isspace_def iscntrl_def highbit_def)


lemma replace_tabs_simps [simp]:
  "replace_tabs [] = []"
  "replace_tabs (c # cs) = (if c = TAB then SPC else c) # replace_tabs cs"
  "replace_tabs (xs @ ys) = replace_tabs xs @ replace_tabs ys"
  by (simp_all add: replace_tabs_def)














section \<open>\<^verbatim>\<open>removeSpaceNearNL\<close> never reads before the start of its buffer\<close>

text \<open>
  \<open>tmp[prev]\<close> is read with \<open>tmp\<close> empty only if a space comes when nothing was written
  since the start; the only characters passed over without being written are spaces
  right before a newline, so the character at hand is then a newline and not a space.
\<close>

lemma rsnl_checked_loop:
  "(started \<and> tmp = [] \<longrightarrow> s \<noteq> [] \<and> hd s = NL) \<Longrightarrow>
     rsnl_checked tmp started s = Some (rsnl_loop tmp started s)"
proof (induction s arbitrary: tmp started)
  case Nil
  show ?case by simp
next
  case (Cons c cs)
  from Cons.prems have ok: "\<not> (c = SPC \<and> started \<and> tmp = [])" by auto
  show ?case
  proof (cases "c = SPC \<and> ((started \<and> last tmp = NL) \<or> (cs \<noteq> [] \<and> hd cs = NL))")
    case True
    from True ok have "True \<and> tmp = [] \<longrightarrow> cs \<noteq> [] \<and> hd cs = NL" by auto
    from Cons.IH [OF this] True ok show ?thesis by auto
  next
    case False
    have "True \<and> tmp @ [c] = [] \<longrightarrow> cs \<noteq> [] \<and> hd cs = NL" by simp
    from Cons.IH [OF this] False ok show ?thesis by auto
  qed
qed

lemma rsnl_never_out_of_range: "rsnl_checked [] False s = Some (removeSpaceNearNL s)"
  by (simp add: rsnl_checked_loop removeSpaceNearNL_def)

section \<open>A string constant through the cleaning passes\<close>

lemma sublist_left: "sublist L A \<Longrightarrow> sublist L (A @ B)"
  by (simp add: sublist_append)

lemma sublist_right: "sublist L B \<Longrightarrow> sublist L (A @ B)"
  by (simp add: sublist_append)

lemma sublist_split_at:
  assumes "sublist L (U @ c # V)" and "c \<notin> set L"
  shows "sublist L U \<or> sublist L V"
proof -
  from assms(1) consider "sublist L U" | "sublist L (c # V)"
    | L1 L2 where "L = L1 @ L2" "suffix L1 U" "prefix L2 (c # V)"
    by (auto simp: sublist_append)
  then show ?thesis
  proof cases
    case 1
    then show ?thesis by simp
  next
    case 2
    then have "prefix L (c # V) \<or> sublist L V" by (simp add: sublist_Cons_right)
    then show ?thesis
    proof
      assume "prefix L (c # V)"
      with assms(2) have "L = []" by (cases L) auto
      then show ?thesis by simp
    qed simp
  next
    case 3
    from 3(3) assms(2) 3(1) have "L2 = []" by (cases L2) auto
    with 3 have "suffix L U" by simp
    then show ?thesis by (auto simp: suffix_def)
  qed
qed

lemma sublist_snoc_last:
  assumes "sublist L (U @ [c])" and "L \<noteq> []" and "last L \<noteq> c"
  shows "sublist L U"
proof -
  from assms(1) have "suffix L (U @ [c]) \<or> sublist L U" by (simp add: sublist_snoc)
  then show ?thesis
  proof
    assume "suffix L (U @ [c])"
    then obtain zs where "U @ [c] = zs @ L" by (auto simp: suffix_def)
    with assms(2) have "last L = c" by (metis last_appendR last_snoc)
    with assms(3) show ?thesis by simp
  qed simp
qed

text \<open>
  A quoted text \<open>"S"\<close> inside \<open>A @ P @ B\<close>, where \<open>P\<close> holds no quote and is not part of
  \<open>S\<close>, lies in \<open>A\<close> or in \<open>B\<close>.
\<close>

lemma sublist_quoted_split:
  assumes sub: "sublist (DQUOTE # S @ [DQUOTE]) (A @ P @ B)"
    and P: "DQUOTE \<notin> set P" "P \<noteq> []" "\<not> sublist P S"
  shows "sublist (DQUOTE # S @ [DQUOTE]) A \<or> sublist (DQUOTE # S @ [DQUOTE]) B"
proof -
  let ?L = "DQUOTE # S @ [DQUOTE]"
  have inP: "\<not> sublist ?L P"
  proof
    assume "sublist ?L P"
    then have "set ?L \<subseteq> set P" by (rule set_mono_sublist)
    with P(1) show False by simp
  qed
  have inPB: "sublist ?L B" if "sublist ?L (P @ B)"
  proof -
    from that inP consider "sublist ?L B"
      | L1 L2 where "?L = L1 @ L2" "suffix L1 P" "prefix L2 B"
      by (auto simp: sublist_append)
    then show ?thesis
    proof cases
      case 1
      then show ?thesis .
    next
      case 2
      show ?thesis
      proof (cases L1)
        case Nil
        with 2 have "prefix ?L B" by simp
        then show ?thesis by (auto simp: prefix_def)
      next
        case (Cons a L1')
        with 2(1) have "a = DQUOTE" by simp
        with Cons 2(2) have "DQUOTE \<in> set P" by (auto simp: suffix_def)
        with P(1) show ?thesis by simp
      qed
    qed
  qed
  from sub consider "sublist ?L A" | "sublist ?L (P @ B)"
    | L1 L2 where "?L = L1 @ L2" "suffix L1 A" "prefix L2 (P @ B)"
    by (auto simp: sublist_append)
  then show ?thesis
  proof cases
    case 1
    then show ?thesis by simp
  next
    case 2
    then show ?thesis using inPB by simp
  next
    case 3
    from 3(3) consider "prefix L2 P" | us where "L2 = P @ us" "prefix us B"
      by (auto simp: prefix_append)
    then show ?thesis
    proof cases
      case 1
      show ?thesis
      proof (cases "L2 = []")
        case True
        with 3 have "suffix ?L A" by simp
        then show ?thesis by (auto simp: suffix_def)
      next
        case False
        with 3(1) have "last L2 = DQUOTE" by (metis last_appendR last_snoc append_Cons)
        with False have "DQUOTE \<in> set L2" by (metis last_in_set)
        with 1 have "DQUOTE \<in> set P" by (auto simp: prefix_def)
        with P(1) show ?thesis by simp
      qed
    next
      case 2
      from 3(1) 2(1) have eq: "DQUOTE # S @ [DQUOTE] = L1 @ P @ us" by simp
      have "L1 \<noteq> []"
      proof
        assume "L1 = []"
        with eq P(2) have "hd P = DQUOTE" by (cases P) auto
        with P(1,2) show False by (cases P) auto
      qed
      then obtain L1' where L1: "L1 = DQUOTE # L1'" using eq by (cases L1) auto
      have "us \<noteq> []"
      proof
        assume "us = []"
        with eq have "last (L1 @ P) = DQUOTE" by (metis append_Nil2 last_snoc append_Cons)
        with P(2) have "last P = DQUOTE" by simp
        with P(1,2) show False by (metis last_in_set)
      qed
      then obtain us' where us: "us = us' @ [last us]" by (metis append_butlast_last_id)
      from eq L1 us have "S @ [DQUOTE] = (L1' @ P @ us') @ [last us]" by simp
      then have "S = L1' @ P @ us'" by (metis append1_eq_conv)
      then have "sublist P S" by simp
      with P(3) show ?thesis by simp
    qed
  qed
qed

lemma read_str_quote: "read_str (DQUOTE # sfx) = ([DQUOTE], sfx)"
  by (cases sfx) simp_all

lemma skip_line_append: "NL \<in> set s \<Longrightarrow> skip_line (s @ t) = skip_line s @ t"
  by (induction s) auto

lemma skip_block_append:
  "block_closed p c s \<Longrightarrow>
     skip_block p c (s @ t) = (fst (skip_block p c s), snd (skip_block p c s) @ t)"
proof (induction p c s rule: skip_block.induct)
  case (1 chPrev ch)
  then show ?case by (cases t) auto
next
  case (2 chPrev ch c cs)
  then show ?case by (auto simp: Let_def)
qed

lemma read_str_append:
  "str_closed s \<Longrightarrow> read_str (s @ t) = (fst (read_str s), snd (read_str s) @ t)"
proof (induction s rule: read_str.induct)
  case 1
  then show ?case by simp
next
  case (2 c)
  then show ?case by (cases t) auto
next
  case (3 c d ds)
  then show ?case by (auto simp: Let_def)
qed

lemma read_chr_append:
  "chr_closed s \<Longrightarrow> read_chr (s @ t) = (fst (read_chr s), snd (read_chr s) @ t)"
  by (auto simp: chr_closed_def read_chr_def get_def Let_def split: list.splits if_splits)

lemma read_loop_top_level:
  "top_level pre \<Longrightarrow> \<exists>out ign'. read_loop ign (pre @ rest) = out @ read_loop ign' rest"
proof (induction ign pre rule: read_loop_cases)
  case (Nil ign)
  have "read_loop ign ([] @ rest) = [] @ read_loop ign rest" by simp
  then show ?case by blast
next
  case (highbit ign c cs)
  from highbit.hyps have "c \<noteq> SLASH" "c \<noteq> DQUOTE" "c \<noteq> SQUOTE" by auto
  with highbit.prems have "top_level cs" by (simp add: top_level.simps(2))
  with highbit show ?case by (simp add: read_loop_highbit)
next
  case (skip ign c cs)
  from skip.hyps(2) have "c \<noteq> SLASH" "c \<noteq> DQUOTE" "c \<noteq> SQUOTE" by auto
  with skip.prems have "top_level cs" by (simp add: top_level.simps(2))
  with skip show ?case by (simp add: read_loop_skip)
next
  case (slash_eof ign)
  then show ?case by (simp add: top_level.simps(2))
next
  case (line_comment ign rs)
  from line_comment.prems have nl: "NL \<in> set rs" and t: "top_level (skip_line rs)"
    by (simp_all add: top_level.simps(2))
  from line_comment.IH [OF t] obtain out ign' where
    "read_loop True (skip_line rs @ rest) = out @ read_loop ign' rest" by blast
  then have "read_loop ign ((SLASH # SLASH # rs) @ rest) = (NL # out) @ read_loop ign' rest"
    by (simp add: read_loop_line_comment skip_line_append [OF nl])
  then show ?case by blast
next
  case (block_comment ign rs)
  from block_comment.prems have cl: "block_closed NUL SLASH rs"
    and t: "top_level (snd (skip_block NUL SLASH rs))"
    by (simp_all add: top_level.simps(2))
  from block_comment.IH [OF t] obtain out ign' where
    "read_loop True (snd (skip_block NUL SLASH rs) @ rest) = out @ read_loop ign' rest" by blast
  then have "read_loop ign ((SLASH # STAR # rs) @ rest) =
      (fst (skip_block NUL SLASH rs) @ out) @ read_loop ign' rest"
    by (simp add: read_loop_block_comment skip_block_append [OF cl])
  then show ?case by blast
next
  case (slash_other ign chNext rs)
  from slash_other.prems slash_other.hyps have t: "top_level rs"
    by (simp add: top_level.simps(2))
  from slash_other.IH [OF t] obtain out ign' where
    "read_loop True (rs @ rest) = out @ read_loop ign' rest" by blast
  then have "read_loop ign ((SLASH # chNext # rs) @ rest) =
      (SLASH # chNext # out) @ read_loop ign' rest"
    using slash_other.hyps by (simp add: read_loop_slash_other)
  then show ?case by blast
next
  case (string ign cs)
  from string.prems have cl: "str_closed cs" and t: "top_level (snd (read_str cs))"
    by (simp_all add: top_level.simps(2))
  from string.IH [OF t] obtain out ign' where
    "read_loop False (snd (read_str cs) @ rest) = out @ read_loop ign' rest" by blast
  then have "read_loop ign ((DQUOTE # cs) @ rest) =
      (DQUOTE # fst (read_str cs) @ out) @ read_loop ign' rest"
    by (simp add: read_loop_string read_str_append [OF cl])
  then show ?case by blast
next
  case (chr ign cs)
  from chr.prems have cl: "chr_closed cs" and t: "top_level (snd (read_chr cs))"
    by (simp_all add: top_level.simps(2))
  from chr.IH [OF t] obtain out ign' where
    "read_loop False (snd (read_chr cs) @ rest) = out @ read_loop ign' rest" by blast
  then have "read_loop ign ((SQUOTE # cs) @ rest) =
      (fst (read_chr cs) @ out) @ read_loop ign' rest"
    by (simp add: read_loop_chr read_chr_append [OF cl])
  then show ?case by blast
next
  case (plain ign c cs)
  from plain.prems plain.hyps have t: "top_level cs" by (simp add: top_level.simps(2))
  from plain.IH [OF t] obtain out ign' where
    "read_loop (norm_ch c = SPC \<or> c = HASH) (cs @ rest) = out @ read_loop ign' rest" by blast
  then have "read_loop ign ((c # cs) @ rest) = (norm_ch c # out) @ read_loop ign' rest"
    using plain.hyps by (simp add: read_loop_plain)
  then show ?case by blast
qed

lemma read_str_body: "str_body S \<Longrightarrow> \<exists>tail. fst (read_str (S @ DQUOTE # sfx)) = S @ DQUOTE # tail"
proof (induction S rule: str_body.induct)
  case 1
  show ?case by (simp add: read_str_quote)
next
  case (2 c)
  show ?case
  proof (cases "c = BSLASH")
    case True
    then show ?thesis by (cases sfx) (auto simp: Let_def)
  next
    case False
    with 2 show ?thesis by (simp add: read_str_quote)
  qed
next
  case (3 c d ds)
  show ?case
  proof (cases "c = BSLASH")
    case True
    with 3 obtain tail where "fst (read_str (ds @ DQUOTE # sfx)) = ds @ DQUOTE # tail" by auto
    then show ?thesis using True by (simp add: Let_def)
  next
    case False
    with 3 obtain tail where "fst (read_str ((d # ds) @ DQUOTE # sfx)) = (d # ds) @ DQUOTE # tail"
      by auto
    then show ?thesis using False 3 by (simp add: Let_def)
  qed
qed

lemma read_keeps_string:
  assumes "top_level pre" and "str_body S"
  shows "sublist (DQUOTE # S @ [DQUOTE]) (read (pre @ DQUOTE # S @ DQUOTE # sfx))"
proof -
  from read_loop_top_level [OF assms(1), of True "DQUOTE # S @ DQUOTE # sfx"]
  obtain out ign' where
    1: "read_loop True (pre @ DQUOTE # S @ DQUOTE # sfx) = out @ read_loop ign' (DQUOTE # S @ DQUOTE # sfx)"
    by blast
  from read_str_body [OF assms(2), of sfx] obtain tail where
    2: "fst (read_str (S @ DQUOTE # sfx)) = S @ DQUOTE # tail" by blast
  have "read_loop ign' (DQUOTE # S @ DQUOTE # sfx) =
      (DQUOTE # S @ [DQUOTE]) @ tail @ read_loop False (snd (read_str (S @ DQUOTE # sfx)))"
    by (simp add: read_loop_string 2)
  with 1 have "read (pre @ DQUOTE # S @ DQUOTE # sfx) =
      out @ (DQUOTE # S @ [DQUOTE]) @ tail @ read_loop False (snd (read_str (S @ DQUOTE # sfx)))"
    by (simp add: read_def)
  then show ?thesis by (metis sublist_appendI)
qed

lemma replace_tabs_keeps:
  assumes "sublist L s" and "TAB \<notin> set L"
  shows "sublist L (replace_tabs s)"
proof -
  from assms(1) obtain X Y where s: "s = X @ L @ Y" by (auto simp: sublist_def)
  have "replace_tabs L = L" using assms(2) by (induction L) auto
  then have "replace_tabs s = replace_tabs X @ L @ replace_tabs Y" by (simp add: s)
  then show ?thesis by (metis sublist_appendI)
qed

lemma strip_indent_keeps:
  assumes "sublist L s" and "L \<noteq> []" and "hd L \<noteq> SPC"
  shows "sublist L (strip_indent s)"
proof -
  from assms(1) obtain X Y where s: "s = X @ L @ Y" by (auto simp: sublist_def)
  have "sublist L (dropWhile (\<lambda>c. c = SPC) s)"
  proof (cases "\<forall>x \<in> set X. x = SPC")
    case True
    then have "dropWhile (\<lambda>c. c = SPC) s = dropWhile (\<lambda>c. c = SPC) (L @ Y)"
      by (simp add: s dropWhile_append2)
    also have "\<dots> = L @ Y" using assms(2,3) by (cases L) auto
    finally show ?thesis by simp
  next
    case False
    then have "dropWhile (\<lambda>c. c = SPC) s = dropWhile (\<lambda>c. c = SPC) X @ L @ Y"
      by (auto simp: s dropWhile_append1)
    then show ?thesis by (metis sublist_appendI)
  qed
  with assms(1) show ?thesis by (simp add: strip_indent_def)
qed

lemma rsnl_out_inner:
  "NL \<notin> set M \<Longrightarrow> q \<noteq> NL \<Longrightarrow> rsnl_out False (M @ q # Y) = M @ rsnl_out False (q # Y)"
proof (induction M)
  case Nil
  show ?case by simp
next
  case (Cons m M)
  from Cons.prems have m: "m \<noteq> NL" by auto
  from Cons.prems have hd: "hd (M @ q # Y) \<noteq> NL" by (cases M) auto
  have ih: "rsnl_out False (M @ q # Y) = M @ rsnl_out False (q # Y)"
    by (rule Cons.IH) (use Cons.prems in auto)
  have "rsnl_out False (m # (M @ q # Y)) = m # rsnl_out False (M @ q # Y)"
    using hd m by simp
  then show ?case by (simp only: ih append_Cons)
qed

lemma rsnl_out_keeps:
  assumes "NL \<notin> set S"
  shows "sublist (DQUOTE # S @ [DQUOTE]) (rsnl_out b (X @ DQUOTE # S @ DQUOTE # Y))"
proof (induction X arbitrary: b)
  case Nil
  have "rsnl_out b (DQUOTE # S @ DQUOTE # Y) = DQUOTE # rsnl_out False (S @ DQUOTE # Y)" by simp
  also have "\<dots> = DQUOTE # S @ rsnl_out False (DQUOTE # Y)"
    using assms by (simp add: rsnl_out_inner)
  also have "\<dots> = (DQUOTE # S @ [DQUOTE]) @ rsnl_out False Y" by simp
  finally show ?case by simp
next
  case (Cons x X)
  have "rsnl_out b ((x # X) @ DQUOTE # S @ DQUOTE # Y) = rsnl_out b (X @ DQUOTE # S @ DQUOTE # Y) \<or>
        rsnl_out b ((x # X) @ DQUOTE # S @ DQUOTE # Y) = x # rsnl_out (x = NL) (X @ DQUOTE # S @ DQUOTE # Y)"
    by simp
  then show ?case using Cons.IH by (auto simp: sublist_Cons_right)
qed

lemma removeSpaceNearNL_keeps:
  assumes "sublist (DQUOTE # S @ [DQUOTE]) s" and "NL \<notin> set S"
  shows "sublist (DQUOTE # S @ [DQUOTE]) (removeSpaceNearNL s)"
proof -
  from assms(1) obtain X Y where "s = X @ DQUOTE # S @ DQUOTE # Y" by (auto simp: sublist_def)
  then show ?thesis using rsnl_out_keeps [OF assms(2)] by (simp add: removeSpaceNearNL_out)
qed

lemma dup_nl_keeps:
  assumes "sublist L t" and "NL \<notin> set L"
  shows "sublist L (dup_nl t)"
proof (cases "NL \<in> set t")
  case False
  with assms(1) show ?thesis by (simp add: dup_nl_def)
next
  case True
  define tw where "tw = takeWhile (\<lambda>x. x \<noteq> NL) t"
  define dw where "dw = dropWhile (\<lambda>x. x \<noteq> NL) t"
  from True have "dw \<noteq> []" by (simp add: dw_def)
  moreover have "dw \<noteq> [] \<Longrightarrow> hd dw = NL"
    unfolding dw_def using hd_dropWhile [of "\<lambda>x. x \<noteq> NL" t] by auto
  ultimately obtain r where dw: "dw = NL # r" by (cases dw) auto
  have t: "t = tw @ NL # r" using dw by (simp add: tw_def dw_def [symmetric]) (metis takeWhile_dropWhile_id dw dw_def tw_def)
  from assms t have "sublist L tw \<or> sublist L r" using sublist_split_at by metis
  then have "sublist L (tw @ NL # NL # r)"
    by (metis sublist_left sublist_right append_Cons append_Nil)
  moreover have "dup_nl t = tw @ NL # NL # r" using True dw by (simp add: dup_nl_def tw_def dw_def)
  ultimately show ?thesis by simp
qed

lemma fold_step_keeps:
  assumes "rfind [BSLASH, NL] s = Some loc" and "sublist L s" and "NL \<notin> set L"
    and "L \<noteq> []" and "last L \<noteq> BSLASH"
  shows "sublist L (fold_step s loc)"
proof -
  define A where "A = take loc s"
  define B where "B = drop (loc + 2) s"
  define sp where "sp = (if 0 < loc \<and> s ! (loc - 1) \<noteq> SPC then [SPC] else [])"
  have s: "s = (A @ [BSLASH]) @ NL # B" using rfind_Some(1) [OF assms(1)] by (simp add: A_def B_def)
  have fs: "fold_step s loc = A @ dup_nl (sp @ B)"
    using fold_step_eq [OF assms(1)] by (simp add: A_def B_def sp_def)
  from assms(2) s have "sublist L (A @ [BSLASH]) \<or> sublist L B"
    using sublist_split_at [of L "A @ [BSLASH]" NL B] assms(3) by simp
  then show ?thesis
  proof
    assume "sublist L (A @ [BSLASH])"
    then have "sublist L A" using assms(4,5) by (rule sublist_snoc_last)
    then show ?thesis unfolding fs by (rule sublist_left)
  next
    assume "sublist L B"
    then have "sublist L (sp @ B)" by (rule sublist_right)
    then have "sublist L (dup_nl (sp @ B))" using assms(3) by (rule dup_nl_keeps)
    then show ?thesis unfolding fs by (rule sublist_right)
  qed
qed

lemma fold_continuations_keeps:
  "sublist L s \<Longrightarrow> NL \<notin> set L \<Longrightarrow> L \<noteq> [] \<Longrightarrow> last L \<noteq> BSLASH \<Longrightarrow>
     sublist L (fold_continuations s)"
proof (induction s rule: fold_continuations.induct)
  case (1 s)
  show ?case
  proof (cases "rfind [BSLASH, NL] s")
    case None
    with "1.prems"(1) show ?thesis by (subst fold_continuations.simps) simp
  next
    case (Some loc)
    have "sublist L (fold_step s loc)"
      using Some "1.prems" by (rule fold_step_keeps)
    then have "sublist L (fold_continuations (fold_step s loc))"
      using "1.prems"(2-4) by (rule "1.IH" [OF Some])
    then show ?thesis using Some by (subst fold_continuations.simps) simp
  qed
qed

lemma defined_closed_after:
  "defined_closed S \<Longrightarrow> prefix ''#if defined('' (drop k S) \<Longrightarrow>
     \<exists>j. k < j \<and> j < length S \<and> S ! j = RPAR"
proof (induction S arbitrary: k)
  case Nil
  then show ?case by simp
next
  case (Cons c cs)
  show ?case
  proof (cases k)
    case 0
    with Cons.prems have "RPAR \<in> set cs" by simp
    then obtain i where "i < length cs" "cs ! i = RPAR" by (auto simp: in_set_conv_nth)
    then have "k < Suc i \<and> Suc i < length (c # cs) \<and> (c # cs) ! Suc i = RPAR" using 0 by simp
    then show ?thesis by blast
  next
    case (Suc k')
    with Cons.prems have "defined_closed cs" "prefix ''#if defined('' (drop k' cs)" by simp_all
    from Cons.IH [OF this] obtain j where "k' < j" "j < length cs" "cs ! j = RPAR" by blast
    then have "k < Suc j \<and> Suc j < length (c # cs) \<and> (c # cs) ! Suc j = RPAR" using Suc by simp
    then show ?thesis by blast
  qed
qed

lemma pattern_nth:
  assumes "prefix ''#if defined('' (drop p s)" and "p \<le> i" and "i < p + 12"
  shows "s ! i \<noteq> DQUOTE" and "s ! i \<noteq> RPAR"
proof -
  from assms(2,3) have k: "i - p < length ''#if defined(''" by simp
  from prefix_drop_nth [OF assms(1) k] assms(2) have e: "s ! i = ''#if defined('' ! (i - p)" by simp
  have "''#if defined('' ! (i - p) \<in> set ''#if defined(''" using k by (rule nth_mem)
  then have "''#if defined('' ! (i - p) \<noteq> DQUOTE \<and> ''#if defined('' ! (i - p) \<noteq> RPAR" by auto
  with e show "s ! i \<noteq> DQUOTE" and "s ! i \<noteq> RPAR" by simp_all
qed

lemma prefix_append_short: "prefix xs (ys @ zs) \<Longrightarrow> length xs \<le> length ys \<Longrightarrow> prefix xs ys"
  by (auto simp: prefix_append)

lemma take_over: "take (length U + k) (U @ Y) = U @ take k Y"
  by simp

lemma ifdefined_rewrite_keeps:
  assumes f1: "find ''#if defined('' ret pos = Some p"
    and f2: "find '')'' ret (p + 9) = Some pos2"
    and nl: "char_at ret (pos2 + 1) = NL"
    and sub: "sublist (DQUOTE # S @ [DQUOTE]) ret"
    and S: "NL \<notin> set S" "defined_closed S"
  shows "sublist (DQUOTE # S @ [DQUOTE]) (ifdefined_rewrite ret p pos2)"
proof -
  let ?L = "DQUOTE # S @ [DQUOTE]"
  note c = ifdefined_close_pos [OF f1 f2]
  note pat = find_Some(3) [OF f1]
  from sub obtain X Y where ret: "ret = X @ ?L @ Y" by (auto simp: sublist_def)
  define a where "a = length X"
  define n where "n = length S"
  have rew: "ifdefined_rewrite ret p pos2 =
      take (p + 3) ret @ ''def '' @ take (pos2 - (p + 12)) (drop (p + 12) ret) @ drop (pos2 + 1) ret"
    by (rule ifdefined_rewrite_eq [OF c])
  have r: "ret ! pos2 = RPAR" using prefix_drop_nth [OF find_Some(3) [OF f2], of 0] by simp
  from nl have len: "pos2 + 1 < length ret" and nl': "ret ! (pos2 + 1) = NL"
    by (auto simp: char_at_def split: if_splits)
  have qa: "ret ! a = DQUOTE" by (simp add: ret a_def nth_append)
  have qb: "ret ! (a + n + 1) = DQUOTE" by (simp add: ret a_def n_def nth_append)
  have inner: "ret ! i \<noteq> NL" if "a < i" "i \<le> a + n + 1" for i
  proof (cases "i = a + n + 1")
    case True
    with qb show ?thesis by simp
  next
    case False
    with that have "i - a - 1 < n" by simp
    then have "S ! (i - a - 1) \<in> set S" by (simp add: n_def)
    moreover have "ret ! i = S ! (i - a - 1)"
    proof -
      have e: "ret = (X @ [DQUOTE]) @ S @ DQUOTE # Y" by (simp add: ret)
      have i: "i = length (X @ [DQUOTE]) + (i - a - 1)" using that by (simp add: a_def)
      have "ret ! (length (X @ [DQUOTE]) + (i - a - 1)) = (S @ DQUOTE # Y) ! (i - a - 1)"
        unfolding e by (rule nth_append_length_plus)
      also have "\<dots> = S ! (i - a - 1)" using \<open>i - a - 1 < n\<close> by (simp add: nth_append n_def)
      finally show ?thesis using i by simp
    qed
    ultimately show ?thesis using S(1) by auto
  qed
  consider (before) "a + n + 2 \<le> p" | (after) "pos2 + 1 \<le> a"
    | (window) "p + 12 \<le> a" "a + n + 2 \<le> pos2"
    | (clash) "p < a + n + 2" "a \<le> pos2" "a < p + 12 \<or> pos2 < a + n + 2"
    by linarith
  then show ?thesis
  proof cases
    case before
    define m where "m = p + 3 - (a + n + 2)"
    have pe: "p + 3 = length (X @ ?L) + m" using before by (simp add: m_def a_def n_def)
    have re: "ret = (X @ ?L) @ Y" by (simp add: ret)
    have "take (p + 3) ret = (X @ ?L) @ take m Y" unfolding pe re by (rule take_over)
    then have "take (p + 3) ret = X @ ?L @ take m Y" by simp
    then have "sublist ?L (take (p + 3) ret)" by (metis sublist_appendI)
    then show ?thesis unfolding rew by (rule sublist_left)
  next
    case after
    then have "drop (pos2 + 1) ret = drop (pos2 + 1) X @ ?L @ Y"
      by (simp add: ret a_def)
    then have "sublist ?L (drop (pos2 + 1) ret)" by (metis sublist_appendI)
    then have "sublist ?L (take (pos2 - (p + 12)) (drop (p + 12) ret) @ drop (pos2 + 1) ret)"
      by (rule sublist_right)
    then have "sublist ?L (''def '' @ take (pos2 - (p + 12)) (drop (p + 12) ret) @ drop (pos2 + 1) ret)"
      by (rule sublist_right)
    then show ?thesis unfolding rew by (rule sublist_right)
  next
    case window
    then have "drop (p + 12) ret = drop (p + 12) X @ ?L @ Y"
      by (simp add: ret a_def)
    moreover have "pos2 - (p + 12) = length (drop (p + 12) X @ ?L) + (pos2 - (a + n + 2))"
      using window by (simp add: a_def n_def)
    ultimately have "take (pos2 - (p + 12)) (drop (p + 12) ret) =
        take (length (drop (p + 12) X @ ?L) + (pos2 - (a + n + 2))) ((drop (p + 12) X @ ?L) @ Y)"
      by (simp only: append_assoc)
    also have "\<dots> = (drop (p + 12) X @ ?L) @ take (pos2 - (a + n + 2)) Y" by (rule take_over)
    finally have "take (pos2 - (p + 12)) (drop (p + 12) ret) =
        drop (p + 12) X @ ?L @ take (pos2 - (a + n + 2)) Y" by simp
    then have "sublist ?L (take (pos2 - (p + 12)) (drop (p + 12) ret))" by (metis sublist_appendI)
    then have "sublist ?L (take (pos2 - (p + 12)) (drop (p + 12) ret) @ drop (pos2 + 1) ret)"
      by (rule sublist_left)
    then have "sublist ?L (''def '' @ take (pos2 - (p + 12)) (drop (p + 12) ret) @ drop (pos2 + 1) ret)"
      by (rule sublist_right)
    then show ?thesis unfolding rew by (rule sublist_right)
  next
    case clash
    have na: "\<not> (p \<le> a \<and> a < p + 12)" using pattern_nth(1) [OF pat, of a] qa by auto
    have nb: "\<not> (p \<le> a + n + 1 \<and> a + n + 1 < p + 12)"
      using pattern_nth(1) [OF pat, of "a + n + 1"] qb by auto
    have inside: "a < pos2 \<and> pos2 < a + n + 1"
    proof (cases "a < p + 12")
      case True
      with na have ap: "a < p" by simp
      with clash(1) nb have pb: "p + 12 \<le> a + n + 1" by simp
      define k where "k = p - a - 1"
      have kp: "p = a + 1 + k" using ap by (simp add: k_def)
      have "drop p ret = drop k S @ DQUOTE # Y"
        using pb by (simp add: ret kp a_def n_def)
      with pat have "prefix ''#if defined('' (drop k S @ DQUOTE # Y)" by simp
      moreover have "length ''#if defined('' \<le> length (drop k S)" using pb kp by (simp add: n_def)
      ultimately have "prefix ''#if defined('' (drop k S)"
        by (rule prefix_append_short)
      from defined_closed_after [OF S(2) this] obtain j where
        j: "k < j" "j < length S" "S ! j = RPAR" by blast
      define q where "q = a + 1 + j"
      have rq: "ret ! q = RPAR" using j by (simp add: q_def ret a_def nth_append)
      have ql: "q < length ret" using j by (simp add: q_def ret a_def)
      have "\<not> (p \<le> q \<and> q < p + 12)" using pattern_nth(2) [OF pat, of q] rq by auto
      then have q12: "p + 12 \<le> q" using j(1) kp by (simp add: q_def)
      have "drop q ret = ret ! q # drop (Suc q) ret" using ql by (simp add: Cons_nth_drop_Suc)
      then have "prefix '')'' (drop q ret)" using rq by simp
      with find_Some(4) [OF f2] q12 have "\<not> q < pos2" by auto
      then have "pos2 < a + n + 1" using j(2) by (simp add: q_def n_def)
      moreover have "a < pos2" using c(1) ap by simp
      ultimately show ?thesis by simp
    next
      case False
      with clash(3) have "pos2 < a + n + 2" by simp
      moreover have "pos2 \<noteq> a" using qa r by auto
      moreover have "pos2 \<noteq> a + n + 1" using qb r by auto
      ultimately show ?thesis using clash(2) by simp
    qed
    then have "ret ! (pos2 + 1) \<noteq> NL" by (intro inner) simp_all
    with nl' show ?thesis by simp
  qed
qed

lemma rid_loop_keeps:
  "sublist (DQUOTE # S @ [DQUOTE]) ret \<Longrightarrow> NL \<notin> set S \<Longrightarrow> defined_closed S \<Longrightarrow>
     sublist (DQUOTE # S @ [DQUOTE]) (rid_loop ret pos)"
proof (induction ret pos rule: rid_loop.induct)
  case (1 ret pos)
  show ?case
  proof (cases "find ''#if defined('' ret pos")
    case None
    with "1.prems"(1) show ?thesis by (subst rid_loop.simps) simp
  next
    case f1: (Some p)
    show ?thesis
    proof (cases "find '')'' ret (p + 9)")
      case None
      with f1 "1.prems"(1) show ?thesis by (subst rid_loop.simps) simp
    next
      case f2: (Some pos2)
      define ret1 where
        "ret1 = (if char_at ret (pos2 + 1) = NL then ifdefined_rewrite ret p pos2 else ret)"
      have "sublist (DQUOTE # S @ [DQUOTE]) ret1"
        unfolding ret1_def using ifdefined_rewrite_keeps [OF f1 f2 _ "1.prems"] "1.prems"(1)
        by simp
      then have "sublist (DQUOTE # S @ [DQUOTE]) (rid_loop ret1 (p + 1))"
        unfolding ret1_def using "1.prems"(2,3) by (rule "1.IH" [OF f1 f2])
      moreover have "rid_loop ret pos = rid_loop ret1 (p + 1)"
        by (subst rid_loop.simps) (simp add: f1 f2 ret1_def)
      ultimately show ?thesis by simp
    qed
  qed
qed

section \<open>The claims\<close>

subsection \<open>C1: what \<^verbatim>\<open>#else\<close> does to the guard stack of the enumerator\<close>

text \<open>
  Claim C1 (as amended). When \<^verbatim>\<open>getcfgs\<close> processes a line that starts with \<^verbatim>\<open>#else\<close>
  while its guard stack is not empty, the line changes nothing but the top atom: a top
  of \<^verbatim>\<open>"1"\<close> becomes \<^verbatim>\<open>"0"\<close>, and every other top, \<^verbatim>\<open>"0"\<close> or a macro name, becomes
  \<^verbatim>\<open>"1"\<close>. The list of configurations is left as it is.
\<close>

theorem else_flips_top_atom:
  assumes "prefix ''#else'' line" and "deflist \<noteq> []"
  shows "getcfgs_line line (ret, deflist) =
           (ret, butlast deflist @ [if last deflist = ''1'' then ''0'' else ''1''])"
  using assms
  by (simp add: getcfgs_line_def cfgs_push_def cfgs_else_def cfgs_endif_def else_line_getdef)

text \<open>The theorem at a top of \<^verbatim>\<open>"0"\<close>, of \<^verbatim>\<open>"1"\<close> and of the macro name \<open>A\<close>.\<close>

theorem else_flips_top_atom_witness:
  "getcfgs_line ''#else'' ([[]], [''B'', ''0'']) = ([[]], [''B'', ''1'']) \<and>
   getcfgs_line ''#else'' ([[]], [''1'']) = ([[]], [''0'']) \<and>
   getcfgs_line ''#else // x'' ([[]], [''A'']) = ([[]], [''1''])"
  using else_flips_top_atom [of "''#else''" "[''B'', ''0'']" "[[]]"]
        else_flips_top_atom [of "''#else''" "[''1'']" "[[]]"]
        else_flips_top_atom [of "''#else // x''" "[''A'']" "[[]]"]
  by simp

text \<open>
  C1 as stated says that a macro-name top becomes \<^verbatim>\<open>"0"\<close>. After \<^verbatim>\<open>#ifdef A\<close> the
  \<^verbatim>\<open>#else\<close> line leaves \<^verbatim>\<open>"1"\<close> on the stack, and the difference shows in the result:
  a \<^verbatim>\<open>#ifdef B\<close> nested in the \<^verbatim>\<open>#else\<close> branch yields the configuration \<open>B\<close>, which
  a top of \<^verbatim>\<open>"0"\<close> would have suppressed.
\<close>

theorem else_macro_top_counterexample:
  "snd (getcfgs_line ''#else'' ([[], ''A''], [''A''])) = [''1''] \<and>
   getcfgs (''#ifdef A'' @ [NL] @ ''#else'' @ [NL] @ ''#ifdef B'' @ [NL] @ ''#endif'' @ [NL] @ ''#endif'' @ [NL])
     = [[], ''A'', ''B'']"
  by code_simp

subsection \<open>C2: the object-like macro of the spec's scenario 5\<close>

text \<open>
  Claim C2 says that expanding \<^verbatim>\<open>#define N 42\<close>, newline, \<^verbatim>\<open>int a=N;\<close> yields a newline and
  \<^verbatim>\<open>int a=42;\<close>. The code removes the definition and leaves the occurrence of \<open>N\<close> as it
  is: the occurrence is at index 7 of the code, so \<open>pos2 = 8\<close>, and the test
  \<^verbatim>\<open>pos2 >= macro.length()\<close> compares this position in the code with the length 5 of the
  macro text \<^verbatim>\<open>"N 42\n"\<close> and skips the occurrence. This holds with every tokenizer that
  gives \<open>N\<close> as the first token of the macro text: nothing else of the token list is
  looked at before the occurrence is skipped.
\<close>

theorem object_like_macro_not_expanded:
  assumes tk: "tk ''N 42\<newline>'' = tok # toks" and name: "tstr tok = ''N''"
  shows "expandMacros tk (''#define N 42'' @ [NL] @ ''int a=N;'') = Some (Inr ([NL] @ ''int a=N;''))"
proof -
  let ?code = "''#define N 42'' @ [NL] @ ''int a=N;''"
  let ?code1 = "[NL] @ ''int a=N;''"
  have d: "find ''#define'' ?code 0 = Some 0" by code_simp
  have e: "define_end ?code (find [NL] ?code (0 + 6)) = Some 12" by code_simp
  have u: "unfold_macro (substr ?code (0 + 8) (12 - 0 - 7)) (erase ?code 0 (12 - 0)) 0
             = (''N 42\<newline>'', ?code1, 0)" by code_simp
  have c: "c_str ''N 42\<newline>'' = ''N 42\<newline>''" by code_simp
  have f1: "find ''N'' ?code1 (0 + 1) = Some 7" by code_simp
  have a: "expand_at 5 ''N'' mp ts ?code1 7 = Inr (?code1, 7)" for mp ts
    by (simp add: expand_at_def char_at_def isalnum_def)
  have f2: "find ''N'' ?code1 (7 + 1) = None" by code_simp
  have u2: "expand_uses 5 ''N'' mp ts ?code1 7 = Inr ?code1" for mp ts
    by (subst expand_uses.simps) (simp only: f2 option.case)
  have u1: "expand_uses 5 ''N'' mp ts ?code1 0 = Inr ?code1" for mp ts
    by (subst expand_uses.simps) (simp only: f1 a u2 option.case sum.case prod.case)
  have x: "expand_define tk ?code 0 12 = Inr (?code1, 0)"
  proof -
    have len: "length ''N 42\<newline>'' = 5" by simp
    show ?thesis
      unfolding expand_define_def u Let_def fst_conv snd_conv c tk list.case name len u1 sum.case ..
  qed
  have n: "find ''#define'' ?code1 0 = None" by code_simp
  have l: "expand_defines tk ?code1 0 = Some (Inr ?code1)"
    by (subst expand_defines.simps) (simp only: n option.case)
  show ?thesis
    unfolding expandMacros_def
    by (subst expand_defines.simps) (simp only: d e x l option.case sum.case fst_conv snd_conv)
qed

text \<open>The tokenizer \<open>simple_tokenize\<close> is one of them.\<close>

theorem object_like_macro_not_expanded_witness:
  "simple_tokenize ''N 42\<newline>'' = \<lparr>tstr = ''N'', isName = True\<rparr> # [\<lparr>tstr = ''42'', isName = False\<rparr>] \<and>
   tstr \<lparr>tstr = ''N'', isName = True\<rparr> = ''N'' \<and>
   expandMacros simple_tokenize (''#define N 42'' @ [NL] @ ''int a=N;'') = Some (Inr ([NL] @ ''int a=N;''))"
proof -
  have t: "simple_tokenize ''N 42\<newline>'' = \<lparr>tstr = ''N'', isName = True\<rparr> # [\<lparr>tstr = ''42'', isName = False\<rparr>]"
    by code_simp
  from object_like_macro_not_expanded [of simple_tokenize, OF t] t show ?thesis by simp
qed

subsection \<open>C3: a string constant in the cleaned text\<close>

text \<open>
  Claim C3 (as amended). For every input of the form prefix, \<open>"S"\<close>, suffix in which the
  reader is outside of every comment and constant when it has read the prefix (so the
  quote after it opens a string constant), and in which \<open>S\<close> has no unescaped double
  quote, no tab, no newline, and a \<^verbatim>\<open>)\<close> after every \<^verbatim>\<open>#if defined(\<close> it holds, the text \<open>"S"\<close>
  stands unchanged, escape sequences and spaces included, in the cleaned text.
\<close>

theorem string_constant_kept:
  assumes "top_level pre" and "str_body S" and "TAB \<notin> set S" and "NL \<notin> set S"
    and "defined_closed S"
  shows "sublist (DQUOTE # S @ [DQUOTE]) (clean (pre @ DQUOTE # S @ DQUOTE # sfx))"
proof -
  let ?L = "DQUOTE # S @ [DQUOTE]"
  let ?input = "pre @ DQUOTE # S @ DQUOTE # sfx"
  have "sublist ?L (read ?input)" using assms(1,2) by (rule read_keeps_string)
  then have "sublist ?L (replace_tabs (read ?input))"
    by (rule replace_tabs_keeps) (use assms(3) in simp)
  then have "sublist ?L (strip_indent (replace_tabs (read ?input)))"
    by (rule strip_indent_keeps) simp_all
  then have "sublist ?L (removeSpaceNearNL (strip_indent (replace_tabs (read ?input))))"
    using assms(4) by (rule removeSpaceNearNL_keeps)
  then have "sublist ?L (clean_folded ?input)"
    unfolding clean_folded_def by (rule fold_continuations_keeps) (use assms(4) in simp_all)
  then show ?thesis
    unfolding clean_def replaceIfDefined_def using assms(4,5) by (rule rid_loop_keeps)
qed

text \<open>
  The theorem for a string constant with two spaces, an escaped quote, an
  \<^verbatim>\<open>#if defined(A)\<close> and an escape sequence; before it come another string constant, a
  block comment, a character constant that holds a double quote, a line comment and a
  division, and after it a line continuation.
\<close>

theorem string_constant_kept_witness:
  "clean ((''x = '' @ [DQUOTE] @ ''a'' @ [DQUOTE] @ ''; /* c */ y = '' @ [SQUOTE, DQUOTE, SQUOTE] @ ''; // d'' @ [NL] @ ''z = 1/2; s  =  '') @
          DQUOTE # (''a  '' @ [BSLASH, DQUOTE] @ ''b #if defined(A) '' @ [BSLASH] @ ''n'') @
          DQUOTE # ('' ;'' @ [BSLASH, NL] @ ''x;'' @ [NL])) =
     (''x = '' @ [DQUOTE] @ ''a'' @ [DQUOTE] @ ''; y = '' @ [SQUOTE, DQUOTE, SQUOTE] @ '';'' @ [NL] @ ''z = 1/2; s = '' @ [DQUOTE] @ ''a  '' @ [BSLASH, DQUOTE] @ ''b #if defined(A) '' @ [BSLASH] @ ''n'' @ [DQUOTE] @ '' ; x;'' @ [NL, NL]) \<and>
   sublist (DQUOTE # (''a  '' @ [BSLASH, DQUOTE] @ ''b #if defined(A) '' @ [BSLASH] @ ''n'') @ [DQUOTE])
     (clean ((''x = '' @ [DQUOTE] @ ''a'' @ [DQUOTE] @ ''; /* c */ y = '' @ [SQUOTE, DQUOTE, SQUOTE] @ ''; // d'' @ [NL] @ ''z = 1/2; s  =  '') @
             DQUOTE # (''a  '' @ [BSLASH, DQUOTE] @ ''b #if defined(A) '' @ [BSLASH] @ ''n'') @
             DQUOTE # ('' ;'' @ [BSLASH, NL] @ ''x;'' @ [NL])))"
proof -
  let ?pre = "(''x = '' @ [DQUOTE] @ ''a'' @ [DQUOTE] @ ''; /* c */ y = '' @ [SQUOTE, DQUOTE, SQUOTE] @ ''; // d'' @ [NL] @ ''z = 1/2; s  =  '')"
  let ?S = "(''a  '' @ [BSLASH, DQUOTE] @ ''b #if defined(A) '' @ [BSLASH] @ ''n'')"
  let ?sfx = "('' ;'' @ [BSLASH, NL] @ ''x;'' @ [NL])"
  have 1: "top_level ?pre" by code_simp
  have 2: "str_body ?S" by simp
  have 3: "TAB \<notin> set ?S" and 4: "NL \<notin> set ?S" by simp_all
  have 5: "defined_closed ?S" by code_simp
  have "clean (?pre @ DQUOTE # ?S @ DQUOTE # ?sfx) =
      (''x = '' @ [DQUOTE] @ ''a'' @ [DQUOTE] @ ''; y = '' @ [SQUOTE, DQUOTE, SQUOTE] @ '';'' @ [NL] @ ''z = 1/2; s = '' @ [DQUOTE] @ ''a  '' @ [BSLASH, DQUOTE] @ ''b #if defined(A) '' @ [BSLASH] @ ''n'' @ [DQUOTE] @ '' ; x;'' @ [NL, NL])"
    by code_simp
  with string_constant_kept [OF 1 2 3 4 5, of ?sfx] show ?thesis by simp
qed

text \<open>
  C3 as stated fails in each of the ways the amended claim excludes, so none of its
  conditions can be dropped. The reader copies a tab inside a string constant, and
  \<^verbatim>\<open>std::replace\<close> then turns every tab of the text into a space, inside string constants
  too. A quote that follows \<^verbatim>\<open>//\<close> is part of a comment: nothing of \<open>"a"\<close> is left. A
  newline inside \<open>S\<close> is doubled when a line continuation comes before the string
  constant. And \<^verbatim>\<open>#if defined(\<close> inside \<open>S\<close> is rewritten when the next \<^verbatim>\<open>)\<close>, here after the
  string constant, ends its line.
\<close>

theorem string_constant_counterexample:
  "str_body [CHR ''a'', TAB, CHR ''b''] \<and>
   clean ([] @ DQUOTE # [CHR ''a'', TAB, CHR ''b''] @ DQUOTE # []) = [DQUOTE, CHR ''a'', SPC, CHR ''b'', DQUOTE] \<and>
   \<not> sublist (DQUOTE # [CHR ''a'', TAB, CHR ''b''] @ [DQUOTE])
        (clean ([] @ DQUOTE # [CHR ''a'', TAB, CHR ''b''] @ DQUOTE # [])) \<and>
   str_body ''a'' \<and> clean (''//'' @ DQUOTE # ''a'' @ DQUOTE # []) = [NL] \<and>
   str_body (''a'' @ [NL] @ ''b'') \<and>
   clean ((''x'' @ [BSLASH, NL]) @ DQUOTE # (''a'' @ [NL] @ ''b'') @ DQUOTE # []) =
     ''x '' @ [DQUOTE] @ ''a'' @ [NL, NL] @ ''b'' @ [DQUOTE] \<and>
   \<not> sublist (DQUOTE # (''a'' @ [NL] @ ''b'') @ [DQUOTE])
        (clean ((''x'' @ [BSLASH, NL]) @ DQUOTE # (''a'' @ [NL] @ ''b'') @ DQUOTE # [])) \<and>
   str_body ''#if defined('' \<and>
   clean ([] @ DQUOTE # ''#if defined('' @ DQUOTE # ('')'' @ [NL])) =
     [DQUOTE] @ ''#ifdef '' @ [DQUOTE, NL] \<and>
   \<not> sublist (DQUOTE # ''#if defined('' @ [DQUOTE])
        (clean ([] @ DQUOTE # ''#if defined('' @ DQUOTE # ('')'' @ [NL])))"
  by code_simp

subsection \<open>C4: the number of newlines\<close>




subsection \<open>C5: which lines the selector blanks\<close>

text \<open>
  Claim C5 (as amended). Whenever \<^verbatim>\<open>getcode\<close> returns, its output is one line per line
  of the text it was given, each followed by a newline. Every line that starts with
  \<^verbatim>\<open>#if\<close>, \<^verbatim>\<open>#else\<close>, \<^verbatim>\<open>#elif\<close> or \<^verbatim>\<open>#endif\<close> has become the empty line. Every
  other line is emitted unchanged when \<open>match\<close> holds for it and as the empty line when
  it does not; \<open>match\<close> is, on a line that starts with \<^verbatim>\<open>#\<close> (an \<^verbatim>\<open>#include\<close>, say), that
  every entry of \<open>matching_ifdef\<close> is true when the loop reaches the line, and on a line
  that does not start with \<^verbatim>\<open>#\<close> what the last line that starts with \<^verbatim>\<open>#\<close> left of it
  (true when there was none).
\<close>

theorem getcode_blanks_conditional_directives:
  assumes "getcode filedata cfg = Inr out"
  shows "\<exists>outs. out = unlines outs \<and> length outs = length (getlines filedata) \<and>
           (\<forall>i < length outs.
              (is_cond_directive (getlines filedata ! i) \<longrightarrow> outs ! i = []) \<and>
              (\<not> is_cond_directive (getlines filedata ! i) \<longrightarrow>
                 (\<exists>st. getcode_state cfg (take i (getlines filedata)) code_init = Inr st \<and>
                       outs ! i = (if line_match st (getlines filedata ! i)
                                   then getlines filedata ! i else []))))"
proof -
  from assms obtain outs where
    outs: "getcode_loop cfg (getlines filedata) code_init = Inr outs" and out: "out = unlines outs"
    by (auto simp: getcode_def getcode_lines_def split: sum.splits)
  note l = getcode_loop_lines [OF outs]
  from l have "length outs = length (getlines filedata)" by simp
  moreover from l have "\<forall>i < length outs.
              (is_cond_directive (getlines filedata ! i) \<longrightarrow> outs ! i = []) \<and>
              (\<not> is_cond_directive (getlines filedata ! i) \<longrightarrow>
                 (\<exists>st. getcode_state cfg (take i (getlines filedata)) code_init = Inr st \<and>
                       outs ! i = (if line_match st (getlines filedata ! i)
                                   then getlines filedata ! i else [])))"
    by simp
  ultimately show ?thesis using out by blast
qed

text \<open>
  The theorem on a text with an \<^verbatim>\<open>#include\<close> in the branch that the empty configuration
  does not take and a \<^verbatim>\<open>#pragma\<close> in the branch that it takes.
\<close>

theorem getcode_blanks_conditional_directives_witness:
  "\<exists>outs. [NL, NL, NL, NL] @ ''#pragma y'' @ [NL] @ ''z'' @ [NL, NL] = unlines outs \<and> length outs = length (getlines (''#ifdef A'' @ [NL] @ ''#include <a.h>'' @ [NL] @ ''x'' @ [NL] @ ''#else'' @ [NL] @ ''#pragma y'' @ [NL] @ ''z'' @ [NL] @ ''#endif'' @ [NL])) \<and>
           (\<forall>i < length outs.
              (is_cond_directive (getlines (''#ifdef A'' @ [NL] @ ''#include <a.h>'' @ [NL] @ ''x'' @ [NL] @ ''#else'' @ [NL] @ ''#pragma y'' @ [NL] @ ''z'' @ [NL] @ ''#endif'' @ [NL]) ! i) \<longrightarrow> outs ! i = []) \<and>
              (\<not> is_cond_directive (getlines (''#ifdef A'' @ [NL] @ ''#include <a.h>'' @ [NL] @ ''x'' @ [NL] @ ''#else'' @ [NL] @ ''#pragma y'' @ [NL] @ ''z'' @ [NL] @ ''#endif'' @ [NL]) ! i) \<longrightarrow>
                 (\<exists>st. getcode_state [] (take i (getlines (''#ifdef A'' @ [NL] @ ''#include <a.h>'' @ [NL] @ ''x'' @ [NL] @ ''#else'' @ [NL] @ ''#pragma y'' @ [NL] @ ''z'' @ [NL] @ ''#endif'' @ [NL]))) code_init = Inr st \<and>
                       outs ! i = (if line_match st (getlines (''#ifdef A'' @ [NL] @ ''#include <a.h>'' @ [NL] @ ''x'' @ [NL] @ ''#else'' @ [NL] @ ''#pragma y'' @ [NL] @ ''z'' @ [NL] @ ''#endif'' @ [NL]) ! i)
                                   then getlines (''#ifdef A'' @ [NL] @ ''#include <a.h>'' @ [NL] @ ''x'' @ [NL] @ ''#else'' @ [NL] @ ''#pragma y'' @ [NL] @ ''z'' @ [NL] @ ''#endif'' @ [NL]) ! i else []))))"
proof -
  have "getcode (''#ifdef A'' @ [NL] @ ''#include <a.h>'' @ [NL] @ ''x'' @ [NL] @ ''#else'' @ [NL] @ ''#pragma y'' @ [NL] @ ''z'' @ [NL] @ ''#endif'' @ [NL]) [] =
          Inr ([NL, NL, NL, NL] @ ''#pragma y'' @ [NL] @ ''z'' @ [NL, NL])"
    by code_simp
  from getcode_blanks_conditional_directives [OF this] show ?thesis .
qed

text \<open>
  C5 as stated says that every line whose first character is \<^verbatim>\<open>#\<close> becomes empty.
  An \<^verbatim>\<open>#include\<close> line is emitted as it is.
\<close>

theorem directive_line_emitted_counterexample:
  "getcode (''#include <a.h>'' @ [NL] @ ''int x;'' @ [NL]) [] = Inr (''#include <a.h>'' @ [NL] @ ''int x;'' @ [NL])"
  by code_simp

subsection \<open>C6: \<^verbatim>\<open>#elif\<close> while no conditional is open\<close>

text \<open>
  Claim C6 (as amended). In the enumerator, a line that starts with \<^verbatim>\<open>#elif \<close> and is
  met with an empty guard stack pops nothing (the \<^verbatim>\<open>pop_back\<close> is guarded by
  \<^verbatim>\<open>! deflist.empty()\<close>), but it is not ignored: unless nothing but spaces follows the
  keyword, the guard \<open>X\<close> of the line is pushed as by \<^verbatim>\<open>#if X\<close>, and the
  configuration it forms is added to the result when it is new.
\<close>

theorem elif_on_empty_stack_pushes:
  assumes "prefix ''#elif '' line"
  shows "getcfgs_line line (ret, []) =
           (let def = getdef line True
            in if def = [] then (ret, [])
               else (if cfg_join [] [def] \<in> set ret then ret else ret @ [cfg_join [] [def]],
                     [def]))"
  using assms
  by (simp add: getcfgs_line_def cfgs_push_def cfgs_else_def cfgs_endif_def elif_line_getdef Let_def)

theorem elif_on_empty_stack_pushes_witness:
  "getcfgs_line ''#elif X'' ([[]], []) = ([[], ''X''], [''X''])"
  using elif_on_empty_stack_pushes [of "''#elif X''" "[[]]"]
  by (simp add: getdef_def Let_def)

text \<open>
  C6 as stated says that both the enumerator and the selector ignore the line and that
  no empty stack is read. The enumerator pushes \<open>X\<close> and reports the configuration
  \<open>X\<close>; the selector evaluates \<^verbatim>\<open>matched_ifdef.back()\<close> on the empty list, which the
  model reports as \<open>EmptyBack\<close>.
\<close>

theorem elif_on_empty_stack_counterexample:
  "snd (getcfgs_line ''#elif X'' ([[]], [])) = [''X''] \<and>
   getcfgs (''#elif X'' @ [NL]) = [[], ''X''] \<and>
   getcode (''#elif X'' @ [NL]) [] = Inl EmptyBack"
  by code_simp

subsection \<open>C7: cleaning a cleaned text\<close>





subsection \<open>C8: the empty configuration is always there\<close>




subsection \<open>C9: an occurrence with the wrong number of arguments\<close>

text \<open>
  Claim C9 (as amended). When the arguments parsed at an occurrence of a function-like
  macro are not as many as its formal parameters, the iteration for that occurrence
  leaves the code as it is and the scan goes on one character after the start of the
  occurrence. So the pass of this macro leaves the text up to the end of the occurrence
  (the index \<open>q\<close> at which the argument parser stopped) unchanged, provided the macro name
  does not occur again inside the occurrence; and this holds for every pass that returns.
\<close>

theorem mismatched_occurrence_skipped:
  assumes "find macroname code (pos1 + 1) = Some p"
    and "macroparams \<noteq> []"
    and "parse_params (drop (p + length macroname) code) (p + length macroname) 0 [] [] = (params, q)"
    and "length params \<noteq> length macroparams"
    and "\<forall>j. p < j \<and> j \<le> q \<longrightarrow> \<not> prefix macroname (drop j code)"
    and "expand_uses mlen macroname macroparams toks code pos1 = Inr out"
  shows "expand_at mlen macroname macroparams toks code p = Inr (code, p) \<and>
         take (q + 1) out = take (q + 1) code"
proof -
  have at: "expand_at mlen macroname macroparams toks code p = Inr (code, p)"
    using assms(2,3,4) by (auto simp: expand_at_def Let_def)
  have "expand_uses mlen macroname macroparams toks code pos1 =
        expand_uses mlen macroname macroparams toks code p"
    using assms(1) at by (subst expand_uses.simps) simp
  with assms(6) have "expand_uses mlen macroname macroparams toks code p = Inr out" by simp
  moreover have "\<forall>j. p < j \<and> j < q + 1 \<longrightarrow> \<not> prefix macroname (drop j code)"
    using assms(5) by simp
  ultimately have "take (q + 1) out = take (q + 1) code" by (rule expand_uses_untouched)
  with at show ?thesis by simp
qed

text \<open>
  The theorem for a macro \<open>F\<close> of one parameter at the occurrence \<^verbatim>\<open>F(1,2)\<close>, which is kept
  while the later \<^verbatim>\<open>F(3)\<close> is expanded.
\<close>

theorem mismatched_occurrence_skipped_witness:
  "expand_at 13 ''F'' [''a''] (simple_tokenize (''F(a) a+a+a+a'' @ [NL])) ([NL] @ ''F(1,2) F(3)'') 1
     = Inr ([NL] @ ''F(1,2) F(3)'', 1) \<and>
   expand_uses 13 ''F'' [''a''] (simple_tokenize (''F(a) a+a+a+a'' @ [NL])) ([NL] @ ''F(1,2) F(3)'') 0
     = Inr ([NL] @ ''F(1,2) 3+3+3+3'') \<and>
   take 7 ([NL] @ ''F(1,2) 3+3+3+3'') = take 7 ([NL] @ ''F(1,2) F(3)'')"
proof -
  let ?code = "[NL] @ ''F(1,2) F(3)''"
  let ?toks = "simple_tokenize (''F(a) a+a+a+a'' @ [NL])"
  have 1: "find ''F'' ?code (0 + 1) = Some 1" by code_simp
  have 2: "[''a''] \<noteq> []" by simp
  have 3: "parse_params (drop (1 + length ''F'') ?code) (1 + length ''F'') 0 [] [] = ([''1'', ''2''], 6)"
    by code_simp
  have 4: "length [''1'', ''2''] \<noteq> length [''a'']" by simp
  have 5: "\<forall>j. 1 < j \<and> j \<le> 6 \<longrightarrow> \<not> prefix ''F'' (drop j ?code)"
  proof (intro allI impI)
    fix j :: nat assume "1 < j \<and> j \<le> 6"
    then have "j = 2 \<or> j = 3 \<or> j = 4 \<or> j = 5 \<or> j = 6" by auto
    moreover have "\<not> prefix ''F'' (drop 2 ?code)" "\<not> prefix ''F'' (drop 3 ?code)"
      "\<not> prefix ''F'' (drop 4 ?code)" "\<not> prefix ''F'' (drop 5 ?code)"
      "\<not> prefix ''F'' (drop 6 ?code)" by code_simp+
    ultimately show "\<not> prefix ''F'' (drop j ?code)" by blast
  qed
  have 6: "expand_uses 13 ''F'' [''a''] ?toks ?code 0 = Inr ([NL] @ ''F(1,2) 3+3+3+3'')"
    by code_simp
  from mismatched_occurrence_skipped [OF 1 2 3 4 5 6] 6 show ?thesis by simp
qed

text \<open>
  C9 as stated says that such an occurrence is unchanged in the output. The scan goes
  on inside the occurrence that was skipped: in \<^verbatim>\<open>F(F(1),2)\<close>, for \<open>F\<close> of one parameter, the
  outer occurrence has two arguments and is skipped, the inner one is expanded, and the
  output holds \<^verbatim>\<open>F(1,2)\<close> in place of the occurrence.
\<close>

theorem nested_occurrence_counterexample:
  "macro_params (simple_tokenize (''F(a) a'' @ [NL])) = [''a''] \<and>
   parse_params (drop 2 ([NL] @ ''F(F(1),2)'')) 2 0 [] [] = ([''F(1)'', ''2''], 9) \<and>
   expandMacros simple_tokenize (''#define F(a) a'' @ [NL] @ ''F(F(1),2)'') = Some (Inr ([NL] @ ''F(1,2)''))"
  by code_simp

subsection \<open>C10: \<^verbatim>\<open>#else\<close> and \<^verbatim>\<open>#endif\<close> followed by further characters\<close>

text \<open>
  Claim C10. On a line that starts with \<^verbatim>\<open>#endif\<close> or \<^verbatim>\<open>#else\<close> and goes on with at
  least one more character, the selector blanks the line and leaves both of its stacks
  unchanged (only \<open>match\<close> is recomputed from the unchanged \<open>matching\<close> stack), while
  the enumerator pops its guard stack on the \<^verbatim>\<open>#endif\<close> prefix and flips the top atom
  on the \<^verbatim>\<open>#else\<close> prefix (an empty guard stack stays empty).
\<close>

theorem selector_needs_exact_else_endif:
  assumes "line = p @ c # tail" and "p = ''#endif'' \<or> p = ''#else''"
  shows "getcode_line cfg line st = Inr (st\<lparr>cmatch := list_all id (matching_ifdef st)\<rparr>, []) \<and>
         getcfgs_line line (ret, deflist) =
           (ret, if deflist = [] then []
                 else if p = ''#endif'' then butlast deflist
                 else butlast deflist @ [if last deflist = ''1'' then ''0'' else ''1''])"
proof -
  from assms(2) show ?thesis
  proof
    assume p: "p = ''#endif''"
    then have pre: "prefix ''#endif'' line" using assms(1) by simp
    have ne: "line \<noteq> ''#endif''" "line \<noteq> ''#else''" "line \<noteq> []" "hd line = HASH"
      using assms(1) p by auto
    have "code_stacks cfg line (matching_ifdef st, matched_ifdef st) =
            Inr (matching_ifdef st, matched_ifdef st)"
      using ne by (simp add: code_stacks_def endif_line_getdef [OF pre])
    moreover have "is_cond_directive line" using pre by (simp add: is_cond_directive_def)
    ultimately have "getcode_line cfg line st =
        Inr (st\<lparr>cmatch := list_all id (matching_ifdef st)\<rparr>, [])"
      by (simp add: getcode_line_cond)
    moreover have "getcfgs_line line (ret, deflist) = (ret, if deflist = [] then [] else butlast deflist)"
      by (simp add: getcfgs_line_def cfgs_push_def cfgs_else_def cfgs_endif_def
          endif_line_getdef [OF pre] pre)
    ultimately show ?thesis using p by simp
  next
    assume p: "p = ''#else''"
    then have pre: "prefix ''#else'' line" using assms(1) by simp
    have ne: "line \<noteq> ''#endif''" "line \<noteq> ''#else''" "line \<noteq> []" "hd line = HASH"
      using assms(1) p by auto
    have "code_stacks cfg line (matching_ifdef st, matched_ifdef st) =
            Inr (matching_ifdef st, matched_ifdef st)"
      using ne by (simp add: code_stacks_def else_line_getdef [OF pre])
    moreover have "is_cond_directive line" using pre by (simp add: is_cond_directive_def)
    ultimately have "getcode_line cfg line st =
        Inr (st\<lparr>cmatch := list_all id (matching_ifdef st)\<rparr>, [])"
      by (simp add: getcode_line_cond)
    moreover have "getcfgs_line line (ret, deflist) =
        (ret, if deflist = [] then []
              else butlast deflist @ [if last deflist = ''1'' then ''0'' else ''1''])"
      by (simp add: getcfgs_line_def cfgs_push_def cfgs_else_def cfgs_endif_def
          else_line_getdef [OF pre] pre)
    ultimately show ?thesis using p by simp
  qed
qed

theorem selector_needs_exact_else_endif_witness:
  "getcode_line [] ''#endif // A'' \<lparr>cmatch = False, matching_ifdef = [False], matched_ifdef = [False]\<rparr>
     = Inr (\<lparr>cmatch = False, matching_ifdef = [False], matched_ifdef = [False]\<rparr>, []) \<and>
   getcfgs_line ''#endif // A'' ([[], ''A''], [''A'']) = ([[], ''A''], []) \<and>
   getcode_line [] ''#else // A'' \<lparr>cmatch = False, matching_ifdef = [False], matched_ifdef = [False]\<rparr>
     = Inr (\<lparr>cmatch = False, matching_ifdef = [False], matched_ifdef = [False]\<rparr>, []) \<and>
   getcfgs_line ''#else // A'' ([[], ''A''], [''A'']) = ([[], ''A''], [''1''])"
  using selector_needs_exact_else_endif [of "''#endif // A''" "''#endif''" "SPC" "''// A''" "[]"
          "\<lparr>cmatch = False, matching_ifdef = [False], matched_ifdef = [False]\<rparr>" "[[], ''A'']" "[''A'']"]
        selector_needs_exact_else_endif [of "''#else // A''" "''#else''" "SPC" "''// A''" "[]"
          "\<lparr>cmatch = False, matching_ifdef = [False], matched_ifdef = [False]\<rparr>" "[[], ''A'']" "[''A'']"]
  by simp

end
